theory Spec2Isabelle
  imports Complex_Main
begin

section \<open>The Hungarian solver (class HungarianAlgorithm)\<close>

text \<open>
  The solver works on flat arrays in column-major order: cell \<open>(row, col)\<close> of an
  \<open>nOfRows \<times> nOfColumns\<close> matrix lives at index \<open>row + nOfRows * col\<close>.  Costs are C
  \<open>double\<close>s; they are modelled by real numbers (exact arithmetic), with the two
  constants of \<open>float.h\<close> the code uses at their exact values.  Indices and sizes are
  natural numbers.  An access outside an array is an explicit error value.
\<close>

datatype error =
    EmptyMatrix      \<comment> \<open>\<open>DistMatrix[0]\<close> read from an empty vector\<close>
  | ShortRow         \<comment> \<open>\<open>DistMatrix[i][j]\<close> read beyond the end of row \<open>i\<close>\<close>
  | EmptyRange       \<comment> \<open>first element of a row or column read beyond the array\<close>
  | NoPrimeInRow     \<comment> \<open>\<open>step4\<close> indexes column \<open>nOfColumns\<close>\<close>
  | BadAssignment    \<comment> \<open>\<open>match\<close> indexes with an assignment entry out of range\<close>

definition DBL_EPSILON :: real where
  "DBL_EPSILON = 1 / 2 ^ 52"

definition DBL_MAX :: real where
  "DBL_MAX = (2 ^ 53 - 1) * 2 ^ 971"

definition is_zero :: "real \<Rightarrow> bool" where
  \<comment> \<open>\<open>fabs(x) < DBL_EPSILON\<close>\<close>
  "is_zero x \<longleftrightarrow> \<bar>x\<bar> < DBL_EPSILON"

definition first_index :: "(nat \<Rightarrow> bool) \<Rightarrow> nat \<Rightarrow> nat" where
  \<comment> \<open>\<open>for (i = 0; i < k; i++) if (P i) break;\<close> leaves \<open>i = k\<close> when nothing is found\<close>
  "first_index P k = (case find P [0..<k] of None \<Rightarrow> k | Some i \<Rightarrow> i)"

record hstate =
  assignment :: "int list"
  distMatrix :: "real list"
  starMatrix :: "bool list"
  newStarMatrix :: "bool list"
  primeMatrix :: "bool list"
  coveredColumns :: "bool list"
  coveredRows :: "bool list"

text \<open>
  The five step functions call each other in tail position.  Each is modelled by a
  function that does the work of one call (for \<open>step3\<close> and \<open>step4\<close>: of one
  iteration of the outer \<open>while\<close> loop) and returns which call comes next; \<open>run\<close>
  below executes the calls one after the other.
\<close>

datatype call =
    Step2a
  | Step2b
  | Step3
  | Step4 nat nat          \<comment> \<open>\<open>step4(..., row, col)\<close>\<close>
  | Step4Loop nat nat      \<comment> \<open>head of the \<open>while\<close> loop of \<open>step4\<close>, with \<open>starRow\<close>, \<open>starCol\<close>\<close>
  | Step5

definition buildassignmentvector :: "int list \<Rightarrow> bool list \<Rightarrow> nat \<Rightarrow> nat \<Rightarrow> int list" where
  "buildassignmentvector asg star nOfRows nOfColumns =
     fold (\<lambda>row a.
             case find (\<lambda>col. star ! (row + nOfRows * col)) [0..<nOfColumns] of
               None \<Rightarrow> a
             | Some col \<Rightarrow> a[row := int col])
          [0..<nOfRows] asg"

definition computeassignmentcost :: "int list \<Rightarrow> real \<Rightarrow> real list \<Rightarrow> nat \<Rightarrow> real" where
  "computeassignmentcost asg cost dm nOfRows =
     fold (\<lambda>row c.
             let col = asg ! row
             in if col \<ge> 0 then c + dm ! (row + nOfRows * nat col) else c)
          [0..<nOfRows] cost"

definition step2a :: "nat \<Rightarrow> nat \<Rightarrow> hstate \<Rightarrow> hstate" where
  \<comment> \<open>cover every column containing a starred zero\<close>
  "step2a nOfRows nOfColumns s =
     s\<lparr>coveredColumns :=
          fold (\<lambda>col cc.
                  if list_ex (\<lambda>row. starMatrix s ! (row + nOfRows * col)) [0..<nOfRows]
                  then cc[col := True] else cc)
               [0..<nOfColumns] (coveredColumns s)\<rparr>"

definition nOfCoveredColumns :: "nat \<Rightarrow> hstate \<Rightarrow> nat" where
  "nOfCoveredColumns nOfColumns s =
     fold (\<lambda>col k. if coveredColumns s ! col then k + 1 else k) [0..<nOfColumns] 0"

fun step3_cols ::
  "nat \<Rightarrow> nat \<Rightarrow> nat list \<Rightarrow> bool \<Rightarrow> hstate \<Rightarrow> (nat \<times> nat \<times> hstate) + (bool \<times> hstate)" where
  "step3_cols nOfRows nOfColumns [] zerosFound s = Inr (zerosFound, s)"
| "step3_cols nOfRows nOfColumns (col # cols) zerosFound s =
     (if coveredColumns s ! col then step3_cols nOfRows nOfColumns cols zerosFound s
      else
        case find (\<lambda>row. \<not> coveredRows s ! row \<and> is_zero (distMatrix s ! (row + nOfRows * col)))
                  [0..<nOfRows] of
          None \<Rightarrow> step3_cols nOfRows nOfColumns cols zerosFound s
        | Some row \<Rightarrow>
            let s1 = s\<lparr>primeMatrix := (primeMatrix s)[row + nOfRows * col := True]\<rparr>;
                starCol = first_index (\<lambda>c. starMatrix s1 ! (row + nOfRows * c)) nOfColumns
            in if starCol = nOfColumns then Inl (row, col, s1)
               else step3_cols nOfRows nOfColumns cols True
                      (s1\<lparr>coveredRows := (coveredRows s1)[row := True],
                          coveredColumns := (coveredColumns s1)[starCol := False]\<rparr>))"

definition step4_init :: "nat \<Rightarrow> nat \<Rightarrow> nat \<Rightarrow> nat \<Rightarrow> hstate \<Rightarrow> call \<times> hstate" where
  "step4_init nOfRows nOfColumns row col s =
     (let s1 = s\<lparr>newStarMatrix := (starMatrix s)[row + nOfRows * col := True]\<rparr>;
          starCol = col;
          starRow = first_index (\<lambda>r. starMatrix s1 ! (r + nOfRows * starCol)) nOfRows
      in (Step4Loop starRow starCol, s1))"

definition step4_body :: "nat \<Rightarrow> nat \<Rightarrow> nat \<Rightarrow> nat \<Rightarrow> hstate \<Rightarrow> error + call \<times> hstate" where
  "step4_body nOfRows nOfColumns starRow starCol s =
     (let s1 = s\<lparr>newStarMatrix := (newStarMatrix s)[starRow + nOfRows * starCol := False]\<rparr>;
          primeRow = starRow;
          primeCol = first_index (\<lambda>c. primeMatrix s1 ! (primeRow + nOfRows * c)) nOfColumns
      in if primeCol = nOfColumns then Inl NoPrimeInRow
         else
           let s2 = s1\<lparr>newStarMatrix := (newStarMatrix s1)[primeRow + nOfRows * primeCol := True]\<rparr>;
               starCol' = primeCol;
               starRow' = first_index (\<lambda>r. starMatrix s2 ! (r + nOfRows * starCol')) nOfRows
           in Inr (Step4Loop starRow' starCol', s2))"

definition step4_exit :: "nat \<Rightarrow> nat \<Rightarrow> hstate \<Rightarrow> hstate" where
  \<comment> \<open>use temporary copy as new starMatrix, delete all primes, uncover all rows\<close>
  "step4_exit nOfRows nOfColumns s =
     s\<lparr>primeMatrix := replicate (nOfRows * nOfColumns) False,
       starMatrix := newStarMatrix s,
       coveredRows := replicate nOfRows False\<rparr>"

definition step5_h :: "nat \<Rightarrow> nat \<Rightarrow> hstate \<Rightarrow> real" where
  \<comment> \<open>find smallest uncovered element h\<close>
  "step5_h nOfRows nOfColumns s =
     fold (\<lambda>row h.
             if \<not> coveredRows s ! row
             then fold (\<lambda>col h.
                          if \<not> coveredColumns s ! col
                          then (let v = distMatrix s ! (row + nOfRows * col)
                                in if v < h then v else h)
                          else h)
                       [0..<nOfColumns] h
             else h)
          [0..<nOfRows] DBL_MAX"

definition step5 :: "nat \<Rightarrow> nat \<Rightarrow> hstate \<Rightarrow> hstate" where
  "step5 nOfRows nOfColumns s =
     (let h = step5_h nOfRows nOfColumns s;
          d1 = fold (\<lambda>row d.
                       if coveredRows s ! row
                       then fold (\<lambda>col d. d[row + nOfRows * col := d ! (row + nOfRows * col) + h])
                                 [0..<nOfColumns] d
                       else d)
                    [0..<nOfRows] (distMatrix s);
          d2 = fold (\<lambda>col d.
                       if \<not> coveredColumns s ! col
                       then fold (\<lambda>row d. d[row + nOfRows * col := d ! (row + nOfRows * col) - h])
                                 [0..<nOfRows] d
                       else d)
                    [0..<nOfColumns] d1
      in s\<lparr>distMatrix := d2\<rparr>)"

definition step ::
  "nat \<Rightarrow> nat \<Rightarrow> nat \<Rightarrow> call \<times> hstate \<Rightarrow> (error + hstate) + (call \<times> hstate)" where
  "step nOfRows nOfColumns minDim c =
     (case c of
        (Step2a, s) \<Rightarrow> Inr (Step2b, step2a nOfRows nOfColumns s)
      | (Step2b, s) \<Rightarrow>
          if nOfCoveredColumns nOfColumns s = minDim
          then Inl (Inr (s\<lparr>assignment :=
                  buildassignmentvector (assignment s) (starMatrix s) nOfRows nOfColumns\<rparr>))
          else Inr (Step3, s)
      | (Step3, s) \<Rightarrow>
          (case step3_cols nOfRows nOfColumns [0..<nOfColumns] False s of
             Inl (row, col, s') \<Rightarrow> Inr (Step4 row col, s')
           | Inr (zerosFound, s') \<Rightarrow> if zerosFound then Inr (Step3, s') else Inr (Step5, s'))
      | (Step4 row col, s) \<Rightarrow> Inr (step4_init nOfRows nOfColumns row col s)
      | (Step4Loop starRow starCol, s) \<Rightarrow>
          if starRow < nOfRows
          then (case step4_body nOfRows nOfColumns starRow starCol s of
                  Inl e \<Rightarrow> Inl (Inl e)
                | Inr c' \<Rightarrow> Inr c')
          else Inr (Step2a, step4_exit nOfRows nOfColumns s)
      | (Step5, s) \<Rightarrow> Inr (Step3, step5 nOfRows nOfColumns s))"

partial_function (option) run ::
  "nat \<Rightarrow> nat \<Rightarrow> nat \<Rightarrow> call \<times> hstate \<Rightarrow> (error + hstate) option" where
  "run nOfRows nOfColumns minDim c =
     (case step nOfRows nOfColumns minDim c of
        Inl r \<Rightarrow> Some r
      | Inr c' \<Rightarrow> run nOfRows nOfColumns minDim c')"

declare run.simps [code]

fun reduce_rows :: "nat \<Rightarrow> nat \<Rightarrow> nat list \<Rightarrow> real list \<Rightarrow> error + real list" where
  "reduce_rows nOfRows nOfColumns [] d = Inr d"
| "reduce_rows nOfRows nOfColumns (row # rows) d =
     (if length d \<le> row then Inl EmptyRange
      else
        let minValue = fold (\<lambda>col mv. let v = d ! (row + nOfRows * col) in if v < mv then v else mv)
                            [1..<nOfColumns] (d ! row);
            d' = fold (\<lambda>col d. d[row + nOfRows * col := d ! (row + nOfRows * col) - minValue])
                      [0..<nOfColumns] d
        in reduce_rows nOfRows nOfColumns rows d')"

fun reduce_cols :: "nat \<Rightarrow> nat \<Rightarrow> nat list \<Rightarrow> real list \<Rightarrow> error + real list" where
  "reduce_cols nOfRows nOfColumns [] d = Inr d"
| "reduce_cols nOfRows nOfColumns (col # cols) d =
     (if length d \<le> nOfRows * col then Inl EmptyRange
      else
        let minValue = fold (\<lambda>row mv. let v = d ! (row + nOfRows * col) in if v < mv then v else mv)
                            [1..<nOfRows] (d ! (nOfRows * col));
            d' = fold (\<lambda>row d. d[row + nOfRows * col := d ! (row + nOfRows * col) - minValue])
                      [0..<nOfRows] d
        in reduce_cols nOfRows nOfColumns cols d')"

definition star_rows :: "nat \<Rightarrow> nat \<Rightarrow> hstate \<Rightarrow> hstate" where
  \<comment> \<open>Steps 1 and 2a when \<open>nOfRows \<le> nOfColumns\<close>\<close>
  "star_rows nOfRows nOfColumns s =
     fold (\<lambda>row s.
             case find (\<lambda>col. is_zero (distMatrix s ! (row + nOfRows * col)) \<and> \<not> coveredColumns s ! col)
                       [0..<nOfColumns] of
               None \<Rightarrow> s
             | Some col \<Rightarrow>
                 s\<lparr>starMatrix := (starMatrix s)[row + nOfRows * col := True],
                   coveredColumns := (coveredColumns s)[col := True]\<rparr>)
          [0..<nOfRows] s"

definition star_cols :: "nat \<Rightarrow> nat \<Rightarrow> hstate \<Rightarrow> hstate" where
  \<comment> \<open>Steps 1 and 2a when \<open>nOfRows > nOfColumns\<close>; the row covers are cleared afterwards\<close>
  "star_cols nOfRows nOfColumns s =
     (let s' = fold (\<lambda>col s.
                       case find (\<lambda>row. is_zero (distMatrix s ! (row + nOfRows * col)) \<and> \<not> coveredRows s ! row)
                                 [0..<nOfRows] of
                         None \<Rightarrow> s
                       | Some row \<Rightarrow>
                           s\<lparr>starMatrix := (starMatrix s)[row + nOfRows * col := True],
                             coveredColumns := (coveredColumns s)[col := True],
                             coveredRows := (coveredRows s)[row := True]\<rparr>)
                    [0..<nOfColumns] s
      in s'\<lparr>coveredRows := replicate nOfRows False\<rparr>)"

definition init_state :: "real list \<Rightarrow> nat \<Rightarrow> nat \<Rightarrow> hstate" where
  \<comment> \<open>initialization, working copy of the distance matrix, \<open>calloc\<close>ed flag arrays\<close>
  "init_state distMatrixIn nOfRows nOfColumns =
     \<lparr>assignment = replicate nOfRows (- 1),
      distMatrix = take (nOfRows * nOfColumns) distMatrixIn,
      starMatrix = replicate (nOfRows * nOfColumns) False,
      newStarMatrix = replicate (nOfRows * nOfColumns) False,
      primeMatrix = replicate (nOfRows * nOfColumns) False,
      coveredColumns = replicate nOfColumns False,
      coveredRows = replicate nOfRows False\<rparr>"

definition assignmentoptimal :: "real list \<Rightarrow> nat \<Rightarrow> nat \<Rightarrow> (error + int list \<times> real) option" where
  "assignmentoptimal distMatrixIn nOfRows nOfColumns =
     (let s0 = init_state distMatrixIn nOfRows nOfColumns;
          prelim =
            (if nOfRows \<le> nOfColumns
             then (case reduce_rows nOfRows nOfColumns [0..<nOfRows] (distMatrix s0) of
                     Inl e \<Rightarrow> Inl e
                   | Inr d \<Rightarrow> Inr (nOfRows, star_rows nOfRows nOfColumns (s0\<lparr>distMatrix := d\<rparr>)))
             else (case reduce_cols nOfRows nOfColumns [0..<nOfColumns] (distMatrix s0) of
                     Inl e \<Rightarrow> Inl e
                   | Inr d \<Rightarrow> Inr (nOfColumns, star_cols nOfRows nOfColumns (s0\<lparr>distMatrix := d\<rparr>))))
      in case prelim of
           Inl e \<Rightarrow> Some (Inl e)
         | Inr (minDim, s1) \<Rightarrow>
             (case run nOfRows nOfColumns minDim (Step2b, s1) of
                None \<Rightarrow> None
              | Some (Inl e) \<Rightarrow> Some (Inl e)
              | Some (Inr s2) \<Rightarrow>
                  Some (Inr (assignment s2,
                             computeassignmentcost (assignment s2) 0 distMatrixIn nOfRows))))"

definition Solve :: "real list list \<Rightarrow> (error + real \<times> int list) option" where
  "Solve DistMatrix =
     (case DistMatrix of
        [] \<Rightarrow> Some (Inl EmptyMatrix)
      | row0 # _ \<Rightarrow>
          let nRows = length DistMatrix;
              nCols = length row0
          in if list_ex (\<lambda>r. length r < nCols) DistMatrix then Some (Inl ShortRow)
             else
               let distMatrixIn =
                     fold (\<lambda>i d. fold (\<lambda>j d. d[i + nRows * j := DistMatrix ! i ! j]) [0..<nCols] d)
                          [0..<nRows] (replicate (nRows * nCols) 0)
               in (case assignmentoptimal distMatrixIn nRows nCols of
                     None \<Rightarrow> None
                   | Some (Inl e) \<Rightarrow> Some (Inl e)
                   | Some (Inr (asg, cost)) \<Rightarrow> Some (Inr (cost, asg))))"

section \<open>The Kalman filter (class KalmanFilter)\<close>

text \<open>
  Vectors are lists of numbers and matrices lists of rows.  A \<open>float\<close> is modelled by the
  real number it stands for: the model covers finite values, and the arithmetic on them is
  exact.  The conversion of an \<open>int\<close> to \<open>float\<close>, which happens where the code writes
  the fields of a box into a \<open>float\<close> vector or multiplies them with a \<open>float\<close>, rounds
  to a significand of 24 bits (\<open>float_of_int\<close>).  The matrix operations are those
  of the Eigen library, which the code calls: product, transpose, sum, difference, the
  Cholesky factor \<open>matrixL()\<close> of \<open>llt()\<close> and \<open>inverse()\<close>.  The matrix that
  \<open>ma_distance\<close> passes to \<open>inverse()\<close> is a Cholesky factor, which is lower triangular;
  \<open>inverse_lower\<close> inverts such a matrix by forward substitution.  The matrix that
  \<open>update\<close> passes to \<open>inverse()\<close> is the projected covariance; \<open>inverse_mat\<close> inverts
  a square matrix by elimination with row pivoting, which in exact arithmetic gives the
  inverse of every invertible matrix.
\<close>

definition dot :: "real list \<Rightarrow> real list \<Rightarrow> real" where
  "dot u v = sum_list (map2 (*) u v)"

definition mat_vec :: "real list list \<Rightarrow> real list \<Rightarrow> real list" where
  "mat_vec A v = map (\<lambda>row. dot row v) A"

definition mat_mul :: "real list list \<Rightarrow> real list list \<Rightarrow> real list list" where
  "mat_mul A B = map (\<lambda>row. map (\<lambda>col. dot row col) (transpose B)) A"

definition mat_add :: "real list list \<Rightarrow> real list list \<Rightarrow> real list list" where
  "mat_add A B = map2 (map2 (+)) A B"

definition mat_sub :: "real list list \<Rightarrow> real list list \<Rightarrow> real list list" where
  "mat_sub A B = map2 (map2 (-)) A B"

definition asDiagonal :: "real list \<Rightarrow> real list list" where
  "asDiagonal v =
     map (\<lambda>i. map (\<lambda>j. if i = j then v ! i else 0) [0..<length v]) [0..<length v]"

definition Identity :: "nat \<Rightarrow> nat \<Rightarrow> real list list" where
  "Identity r c = map (\<lambda>i. map (\<lambda>j. if i = j then 1 else 0) [0..<c]) [0..<r]"

fun llt_row :: "real list list \<Rightarrow> real list list \<Rightarrow> nat \<Rightarrow> nat list \<Rightarrow> real list \<Rightarrow> real list" where
  \<comment> \<open>the entries left of the diagonal of row \<open>i\<close> of the Cholesky factor\<close>
  "llt_row A L i [] acc = acc"
| "llt_row A L i (j # js) acc =
     llt_row A L i js
       (acc @ [(A ! i ! j - sum_list (map (\<lambda>k. acc ! k * L ! j ! k) [0..<j])) / L ! j ! j])"

fun llt_rows :: "real list list \<Rightarrow> nat list \<Rightarrow> real list list \<Rightarrow> real list list" where
  "llt_rows A [] L = L"
| "llt_rows A (i # is) L =
     (let r = llt_row A L i [0..<i] [];
          dg = sqrt (A ! i ! i - sum_list (map (\<lambda>k. (r ! k)\<^sup>2) [0..<i]))
      in llt_rows A is (L @ [r @ [dg] @ replicate (length A - i - 1) 0]))"

definition matrixL :: "real list list \<Rightarrow> real list list" where
  \<comment> \<open>the lower triangular \<open>L\<close> with \<open>A = L L\<^sup>T\<close>\<close>
  "matrixL A = llt_rows A [0..<length A] []"

fun inverse_rows :: "real list list \<Rightarrow> nat list \<Rightarrow> real list list \<Rightarrow> real list list" where
  "inverse_rows L [] X = X"
| "inverse_rows L (i # is) X =
     inverse_rows L is
       (X @ [map (\<lambda>j. ((if i = j then 1 else 0) - sum_list (map (\<lambda>k. L ! i ! k * X ! k ! j) [0..<i]))
                       / L ! i ! i)
                 [0..<length L]])"

definition inverse_lower :: "real list list \<Rightarrow> real list list" where
  "inverse_lower L = inverse_rows L [0..<length L] []"

fun pivot_row :: "real list list \<Rightarrow> nat \<Rightarrow> nat list \<Rightarrow> nat \<Rightarrow> nat" where
  \<comment> \<open>the row with the entry of largest absolute value in column \<open>k\<close>, the first of them\<close>
  "pivot_row M k [] p = p"
| "pivot_row M k (r # rs) p = pivot_row M k rs (if \<bar>M ! r ! k\<bar> > \<bar>M ! p ! k\<bar> then r else p)"

definition eliminate :: "nat \<Rightarrow> real list list \<Rightarrow> real list list" where
  \<comment> \<open>one step of the elimination on the matrix extended by the identity: the pivot row is
      moved to row \<open>k\<close> and scaled, and column \<open>k\<close> is cleared in the other rows\<close>
  "eliminate k M =
     (let p = pivot_row M k [Suc k..<length M] k;
          M = M[k := M ! p, p := M ! k];
          row_k = map (\<lambda>x. x / M ! k ! k) (M ! k)
      in map (\<lambda>i. if i = k then row_k
                   else map2 (\<lambda>x y. x - M ! i ! k * y) (M ! i) row_k)
           [0..<length M])"

definition inverse_mat :: "real list list \<Rightarrow> real list list" where
  "inverse_mat A =
     (let n = length A;
          M = map2 (@) A (Identity n n)
      in map (drop n) (fold eliminate [0..<n] M))"

function float_exp :: "int \<Rightarrow> nat" where
  \<comment> \<open>the number of low bits of \<open>a\<close> that do not fit into a significand of 24 bits\<close>
  "float_exp a = (if a < 2 ^ 24 then 0 else Suc (float_exp (a div 2)))"
  by pat_completeness auto
termination
  by (relation "measure nat") auto

declare float_exp.simps [simp del]

definition float_of_int :: "int \<Rightarrow> real" where
  \<comment> \<open>the conversion of an \<open>int\<close> to \<open>float\<close>: the nearest number with a significand of
      24 bits, the one with an even significand when two are equally near\<close>
  "float_of_int i =
     (let a = \<bar>i\<bar>;
          e = float_exp a;
          q = a div 2 ^ e;
          r = a mod 2 ^ e;
          q = (if 2 * r > 2 ^ e \<or> (2 * r = 2 ^ e \<and> odd q) then q + 1 else q)
      in real_of_int ((if i < 0 then - 1 else 1) * (q * 2 ^ e)))"

record BBoxXYAH =
  center_x :: int
  center_y :: int
  aspect_ratio :: real
  height :: int

definition std_weight_position :: real where
  "std_weight_position = 1 / 20"

definition std_weight_velocity :: real where
  "std_weight_velocity = 1 / 10"

definition motion_mat :: "real list list" where
  "motion_mat = map (\<lambda>i. map (\<lambda>j. if i = j \<or> (i < 4 \<and> j = 4 + i) then 1 else 0) [0..<8]) [0..<8]"

definition update_mat :: "real list list" where
  "update_mat = Identity 4 8"

definition project :: "real list \<Rightarrow> real list list \<Rightarrow> real list \<times> real list list" where
  "project mean covariance =
     (let std_vel = [std_weight_position * mean ! 3,
                     std_weight_position * mean ! 3,
                     5 / 10,
                     std_weight_position * mean ! 3];
          std_vel = map (\<lambda>x. x\<^sup>2) std_vel;
          innovation_cov = asDiagonal std_vel;
          mean_ret = mat_vec update_mat mean;
          covariance_ret =
            mat_add (mat_mul (mat_mul update_mat covariance) (transpose update_mat)) innovation_cov
      in (mean_ret, covariance_ret))"

definition ma_distance :: "real list \<Rightarrow> real list list \<Rightarrow> BBoxXYAH \<Rightarrow> bool \<Rightarrow> real option" where
  \<comment> \<open>With \<open>only_position\<close> the code returns an uninitialised variable: \<open>None\<close>.  The value
      computed first from \<open>cholesky_factor.solve(d)\<close> is overwritten before it is read.\<close>
  "ma_distance mean covariance boxah only_position =
     (let (mean_ret, covariance_ret) = project mean covariance
      in if only_position then None
         else
           let matrix_boxah = [float_of_int (center_x boxah), float_of_int (center_y boxah),
                               aspect_ratio boxah, float_of_int (height boxah)];
               d = map2 (-) matrix_boxah mean_ret;
               a = matrixL covariance_ret;
               a_inv = inverse_lower a;
               zz = map (\<lambda>col. dot d col) (transpose a_inv)
           in Some (sum_list (map (\<lambda>x. x\<^sup>2) zz)))"

definition kf_predict_real :: "real list \<Rightarrow> real list list \<Rightarrow> real list \<times> real list list" where
  \<comment> \<open>\<open>KalmanFilter::predict\<close>\<close>
  "kf_predict_real mean covariance =
     (let std_pos_vel = [std_weight_position * mean ! 3,
                         std_weight_position * mean ! 3,
                         1 / 10,
                         std_weight_position * mean ! 3,
                         std_weight_velocity * mean ! 3,
                         std_weight_velocity * mean ! 3,
                         5 / 10,
                         std_weight_velocity * mean ! 3];
          std_pos_vel = map (\<lambda>x. x\<^sup>2) std_pos_vel;
          motion_cov = asDiagonal std_pos_vel
      in (mat_vec motion_mat mean,
          mat_add (mat_mul (mat_mul motion_mat covariance) (transpose motion_mat)) motion_cov))"

definition kf_update_real ::
  "BBoxXYAH \<Rightarrow> real list \<Rightarrow> real list list \<Rightarrow> real list \<times> real list list" where
  \<comment> \<open>\<open>KalmanFilter::update\<close>\<close>
  "kf_update_real boxah mean covariance =
     (let (mean_ret, covariance_ret) = project mean covariance;
          cov_inv = inverse_mat covariance_ret;
          kalman_gain = mat_mul (mat_mul covariance (transpose update_mat)) cov_inv;
          measurement = [float_of_int (center_x boxah), float_of_int (center_y boxah),
                         aspect_ratio boxah, float_of_int (height boxah)];
          innovation = map2 (-) measurement mean_ret
      in (map2 (+) mean (mat_vec kalman_gain innovation),
          mat_sub covariance (mat_mul (mat_mul kalman_gain update_mat) covariance)))"

definition initiate :: "BBoxXYAH \<Rightarrow> real list \<times> real list list" where
  "initiate boxah =
     (let mean = [float_of_int (center_x boxah), float_of_int (center_y boxah), aspect_ratio boxah,
                  float_of_int (height boxah), 0, 0, 0, 0];
          std_val = [2 * std_weight_position * float_of_int (height boxah),
                     2 * std_weight_position * float_of_int (height boxah),
                     1 / 10,
                     2 * std_weight_position * float_of_int (height boxah),
                     2 * std_weight_velocity * float_of_int (height boxah),
                     2 * std_weight_velocity * float_of_int (height boxah),
                     5 / 10,
                     10 * std_weight_velocity * float_of_int (height boxah)];
          covariance = asDiagonal (map (\<lambda>x. x\<^sup>2) std_val)
      in (mean, covariance))"

section \<open>Tracks (class TrackObjectImpl)\<close>

text \<open>
  The tracker only moves boxes and filter states around; what it needs from them is
  passed in as a record of operations: the four operations of \<open>KalmanFilter\<close> that
  it calls (on a box converted to \<open>BBoxXYAH\<close>) and the static function
  \<open>distance\<close>.  The type \<open>'b\<close> stands for \<open>Box\<close>, the type \<open>'k\<close> for the pair
  \<open>(mean_, covariance_)\<close>.  The counters are C \<open>int\<close>s, modelled by integers.
\<close>

record ('b, 'k) numerics =
  kf_initiate :: "'b \<Rightarrow> 'k"
  kf_predict :: "'k \<Rightarrow> 'k"
  kf_update :: "'b \<Rightarrow> 'k \<Rightarrow> 'k"
  kf_ma_distance :: "'k \<Rightarrow> 'b \<Rightarrow> real"
  box_distance :: "'b \<Rightarrow> 'b \<Rightarrow> real"

datatype State = Tentative | Confirmed | Deleted

record ('b, 'k) TrackObjectImpl =
  time_since_update :: int
  state :: State
  age :: int
  hits :: int
  track_id :: int
  trace :: "'b list"
  last_position :: 'b
  mean_covariance :: 'k

definition TrackObjectImpl_new :: "'b \<Rightarrow> 'k \<Rightarrow> int \<Rightarrow> ('b, 'k) TrackObjectImpl" where
  \<comment> \<open>the constructor, with the default member initialisers\<close>
  "TrackObjectImpl_new box mc id_next =
     \<lparr>time_since_update = 0, state = Tentative, age = 1, hits = 1, track_id = id_next,
      trace = [box], last_position = box, mean_covariance = mc\<rparr>"

definition track_predict ::
  "('b, 'k) numerics \<Rightarrow> ('b, 'k) TrackObjectImpl \<Rightarrow> ('b, 'k) TrackObjectImpl" where
  "track_predict km t =
     t\<lparr>mean_covariance := kf_predict km (mean_covariance t),
       age := age t + 1,
       time_since_update := time_since_update t + 1\<rparr>"

definition mark_missed :: "('b, 'k) TrackObjectImpl \<Rightarrow> ('b, 'k) TrackObjectImpl" where
  "mark_missed t =
     (if state t = Tentative \<or> time_since_update t > 30 then t\<lparr>state := Deleted\<rparr> else t)"

definition track_update ::
  "('b, 'k) numerics \<Rightarrow> 'b \<Rightarrow> ('b, 'k) TrackObjectImpl \<Rightarrow> ('b, 'k) TrackObjectImpl" where
  "track_update km box t =
     (let tr = trace t @ [box];
          tr = (if length tr > 80 then tl tr else tr);
          h = hits t + 1
      in t\<lparr>trace := tr,
           mean_covariance := kf_update km box (mean_covariance t),
           last_position := box,
           hits := h,
           time_since_update := 0,
           state := (if state t = Tentative \<and> h \<ge> 3 then Confirmed else state t)\<rparr>)"

section \<open>The tracker (class TrackerImpl)\<close>

record ('b, 'k) TrackerImpl =
  id_next :: int
  objects :: "('b, 'k) TrackObjectImpl list"

definition TrackerImpl_new :: "('b, 'k) TrackerImpl" where
  "TrackerImpl_new = \<lparr>id_next = 1, objects = []\<rparr>"

definition chi2inv95_2 :: "real list" where
  "chi2inv95_2 = [3.8415, 5.9915, 7.8147, 9.4877, 11.070, 12.592, 14.067, 15.507, 16.919]"

definition cost_matrix ::
  "('b, 'k) numerics \<Rightarrow> ('b, 'k) TrackObjectImpl list \<Rightarrow> nat list \<Rightarrow> nat list \<Rightarrow> 'b list
     \<Rightarrow> real list list" where
  "cost_matrix km objs objects_index boxes_index boxes =
     map (\<lambda>obj_idx.
            map (\<lambda>box_idx.
                   let TrackObject = objs ! obj_idx;
                       box = boxes ! box_idx;
                       maha_distance = kf_ma_distance km (mean_covariance TrackObject) box
                   in if maha_distance > chi2inv95_2 ! 3 then 100000
                      else box_distance km (last_position TrackObject) box)
                boxes_index)
         objects_index"

fun accept_rows ::
  "real list list \<Rightarrow> nat list \<Rightarrow> nat list \<Rightarrow> int list \<Rightarrow> nat list \<Rightarrow> nat list \<times> nat list
     \<Rightarrow> error + nat list \<times> nat list" where
  "accept_rows cost_matrix_data objects_index boxes_index asg [] acc = Inr acc"
| "accept_rows cost_matrix_data objects_index boxes_index asg (i # is)
       (match_boxes_index, match_objects_index) =
     (if asg ! i < 0
      then accept_rows cost_matrix_data objects_index boxes_index asg is
             (match_boxes_index, match_objects_index)
      else if length boxes_index \<le> nat (asg ! i) then Inl BadAssignment
      else
        let obj_index = objects_index ! i;
            box_index = boxes_index ! nat (asg ! i)
        in if cost_matrix_data ! i ! nat (asg ! i) < 200
           then accept_rows cost_matrix_data objects_index boxes_index asg is
                  (match_boxes_index @ [box_index], match_objects_index @ [obj_index])
           else accept_rows cost_matrix_data objects_index boxes_index asg is
                  (match_boxes_index, match_objects_index))"

definition match ::
  "('b, 'k) numerics \<Rightarrow> ('b, 'k) TrackObjectImpl list \<Rightarrow> nat list \<Rightarrow> nat list \<Rightarrow> 'b list
     \<Rightarrow> (error + nat list \<times> nat list) option" where
  \<comment> \<open>the result is \<open>(match_boxes_index, match_objects_index)\<close>, both empty at the call\<close>
  "match km objs objects_index boxes_index boxes =
     (let cost_matrix_data = cost_matrix km objs objects_index boxes_index boxes
      in case Solve cost_matrix_data of
           None \<Rightarrow> None
         | Some (Inl e) \<Rightarrow> Some (Inl e)
         | Some (Inr (cost, asg)) \<Rightarrow>
             Some (accept_rows cost_matrix_data objects_index boxes_index asg
                     [0..<length asg] ([], [])))"

definition set_symmetric_difference :: "nat list \<Rightarrow> nat list \<Rightarrow> nat list" where
  \<comment> \<open>\<open>std::set_symmetric_difference\<close> on two \<open>std::set\<close>s built from the vectors\<close>
  "set_symmetric_difference xs ys =
     sort (remdups (filter (\<lambda>x. x \<notin> set ys) xs @ filter (\<lambda>y. y \<notin> set xs) ys))"

type_synonym ('b, 'k) cascade =
  "nat list \<times> nat list \<times> ('b, 'k) TrackObjectImpl list"

fun cascade_levels ::
  "('b, 'k) numerics \<Rightarrow> 'b list \<Rightarrow> State \<Rightarrow> nat list \<Rightarrow> ('b, 'k) cascade
     \<Rightarrow> (error + ('b, 'k) cascade) option" where
  "cascade_levels km boxes st [] c = Some (Inr c)"
| "cascade_levels km boxes st (level # levels)
       (unmatched_boxes_index, unmatched_objects_index, objs) =
     (if length unmatched_boxes_index = 0 \<or> length unmatched_objects_index = 0
      then Some (Inr (unmatched_boxes_index, unmatched_objects_index, objs))
      else
        let objects_index =
              filter (\<lambda>index. time_since_update (objs ! index) = int level + 1 \<and>
                               state (objs ! index) = st)
                     unmatched_objects_index
        in if length objects_index = 0
           then cascade_levels km boxes st levels
                  (unmatched_boxes_index, unmatched_objects_index, objs)
           else
             (case match km objs objects_index unmatched_boxes_index boxes of
                None \<Rightarrow> None
              | Some (Inl e) \<Rightarrow> Some (Inl e)
              | Some (Inr (match_boxes_index, match_objects_index)) \<Rightarrow>
                  let ub = set_symmetric_difference match_boxes_index unmatched_boxes_index;
                      uo = set_symmetric_difference unmatched_objects_index match_objects_index;
                      count = min (length match_objects_index) (length match_boxes_index);
                      objs' = fold (\<lambda>i objs.
                                      objs[match_objects_index ! i :=
                                             track_update km (boxes ! (match_boxes_index ! i))
                                               (objs ! (match_objects_index ! i))])
                                   [0..<count] objs
                  in cascade_levels km boxes st levels (ub, uo, objs')))"

fun cascade_states ::
  "('b, 'k) numerics \<Rightarrow> 'b list \<Rightarrow> State list \<Rightarrow> ('b, 'k) cascade
     \<Rightarrow> (error + ('b, 'k) cascade) option" where
  "cascade_states km boxes [] c = Some (Inr c)"
| "cascade_states km boxes (st # states) c =
     (case cascade_levels km boxes st [0..<30] c of
        None \<Rightarrow> None
      | Some (Inl e) \<Rightarrow> Some (Inl e)
      | Some (Inr c') \<Rightarrow> cascade_states km boxes states c')"

definition new_object ::
  "('b, 'k) numerics \<Rightarrow> 'b \<Rightarrow> ('b, 'k) TrackerImpl \<Rightarrow> ('b, 'k) TrackerImpl" where
  "new_object km box t =
     t\<lparr>objects := objects t @ [TrackObjectImpl_new box (kf_initiate km box) (id_next t)],
       id_next := id_next t + 1\<rparr>"

definition tracker_predict :: "('b, 'k) numerics \<Rightarrow> ('b, 'k) TrackerImpl \<Rightarrow> ('b, 'k) TrackerImpl" where
  "tracker_predict km t = t\<lparr>objects := map (track_predict km) (objects t)\<rparr>"

definition tracker_update ::
  "('b, 'k) numerics \<Rightarrow> 'b list \<Rightarrow> ('b, 'k) TrackerImpl
     \<Rightarrow> (error + ('b, 'k) TrackerImpl) option" where
  "tracker_update km boxes t0 =
     (let t1 = tracker_predict km t0;
          unmatched_boxes_index = [0..<length boxes];
          unmatched_objects_index = [0..<length (objects t1)]
      in case cascade_states km boxes [Confirmed, Tentative]
                (unmatched_boxes_index, unmatched_objects_index, objects t1) of
           None \<Rightarrow> None
         | Some (Inl e) \<Rightarrow> Some (Inl e)
         | Some (Inr (unmatched_boxes_index, unmatched_objects_index, objs)) \<Rightarrow>
             let objs = fold (\<lambda>index objs. objs[index := mark_missed (objs ! index)])
                             unmatched_objects_index objs;
                 t2 = fold (\<lambda>index t. new_object km (boxes ! index) t)
                           unmatched_boxes_index (t1\<lparr>objects := objs\<rparr>);
                 objects_tmp = filter (\<lambda>obj. state obj \<noteq> Deleted) (objects t2)
             in Some (Inr (t2\<lparr>objects := objects_tmp\<rparr>)))"

section \<open>Frames without detections\<close>

definition missed :: "('b, 'k) numerics \<Rightarrow> ('b, 'k) TrackObjectImpl \<Rightarrow> ('b, 'k) TrackObjectImpl" where
  \<comment> \<open>what one frame does to a track that is not matched: \<open>predict\<close>, then \<open>mark_missed\<close>\<close>
  "missed km tr = mark_missed (track_predict km tr)"

fun empty_frames ::
  "('b, 'k) numerics \<Rightarrow> nat \<Rightarrow> ('b, 'k) TrackerImpl \<Rightarrow> (error + ('b, 'k) TrackerImpl) option" where
  \<comment> \<open>\<open>k\<close> successive calls \<open>update({})\<close>\<close>
  "empty_frames km 0 t = Some (Inr t)"
| "empty_frames km (Suc k) t =
     (case tracker_update km [] t of
        Some (Inr t') \<Rightarrow> empty_frames km k t'
      | r \<Rightarrow> r)"

definition unit_numerics :: "(nat, unit) numerics" where
  \<comment> \<open>a trivial filter on boxes that are plain numbers, for concrete runs of the bookkeeping\<close>
  "unit_numerics =
     \<lparr>kf_initiate = (\<lambda>b. ()), kf_predict = (\<lambda>k. k), kf_update = (\<lambda>b k. k),
      kf_ma_distance = (\<lambda>k b. 0), box_distance = (\<lambda>a b. 0)\<rparr>"

definition skew_cov :: "real list list" where
  \<comment> \<open>a symmetric positive definite covariance whose first two coordinates are correlated\<close>
  "skew_cov =
     [[1, 1, 0, 0, 0, 0, 0, 0],
      [1, 2, 0, 0, 0, 0, 0, 0],
      [0, 0, 3 / 4, 0, 0, 0, 0, 0],
      [0, 0, 0, 1, 0, 0, 0, 0],
      [0, 0, 0, 0, 1, 0, 0, 0],
      [0, 0, 0, 0, 0, 1, 0, 0],
      [0, 0, 0, 0, 0, 0, 1, 0],
      [0, 0, 0, 0, 0, 0, 0, 1]]"

section \<open>The states of the filter\<close>


inductive kf_state :: "real list \<times> real list list \<Rightarrow> bool" where
  \<comment> \<open>the pairs \<open>(mean_, covariance_)\<close> that a track can hold: written by \<open>initiate\<close> in
      the constructor, then by \<open>predict\<close> and \<open>update\<close>\<close>
  initiate: "kf_state (initiate boxah)"
| predict: "kf_state (mean, covariance) \<Longrightarrow> kf_state (kf_predict_real mean covariance)"
| update: "kf_state (mean, covariance) \<Longrightarrow> kf_state (kf_update_real boxah mean covariance)"

definition blocks :: "real list \<Rightarrow> real list \<Rightarrow> real list \<Rightarrow> real list \<Rightarrow> real list list" where
  \<comment> \<open>the \<open>8 \<times> 8\<close> matrix of four diagonal \<open>4 \<times> 4\<close> blocks\<close>
  "blocks a b c d =
     map (\<lambda>i. map (\<lambda>j. if j = i then a ! i else if j = i + 4 then b ! i else 0) [0..<8]) [0..<4] @
     map (\<lambda>i. map (\<lambda>j. if j = i then c ! i else if j = i + 4 then d ! i else 0) [0..<8]) [0..<4]"

definition block_cov :: "real list list \<Rightarrow> bool" where
  "block_cov M \<longleftrightarrow> (\<exists>a b c d. M = blocks a b c d)"

section \<open>Invariants\<close>

definition wf_state :: "nat \<Rightarrow> nat \<Rightarrow> hstate \<Rightarrow> bool" where
  "wf_state n m s \<longleftrightarrow>
     assignment s = replicate n (- 1) \<and> length (distMatrix s) = n * m \<and>
     length (starMatrix s) = n * m \<and> length (newStarMatrix s) = n * m \<and>
     length (primeMatrix s) = n * m \<and> length (coveredColumns s) = m \<and>
     length (coveredRows s) = n"

definition rows_le1 :: "nat \<Rightarrow> nat \<Rightarrow> bool list \<Rightarrow> bool" where
  \<comment> \<open>at most one mark in every row\<close>
  "rows_le1 n m st \<longleftrightarrow>
     (\<forall>r<n. \<forall>c<m. \<forall>c'<m. st ! (r + n * c) \<longrightarrow> st ! (r + n * c') \<longrightarrow> c = c')"

definition col_le1 :: "nat \<Rightarrow> bool list \<Rightarrow> nat \<Rightarrow> bool" where
  \<comment> \<open>at most one mark in column \<open>c\<close>\<close>
  "col_le1 n st c \<longleftrightarrow> (\<forall>r<n. \<forall>r'<n. st ! (r + n * c) \<longrightarrow> st ! (r' + n * c) \<longrightarrow> r = r')"

definition matching :: "nat \<Rightarrow> nat \<Rightarrow> bool list \<Rightarrow> bool" where
  "matching n m st \<longleftrightarrow> rows_le1 n m st \<and> (\<forall>c<m. col_le1 n st c)"

definition starred_cols :: "nat \<Rightarrow> nat \<Rightarrow> bool list \<Rightarrow> nat set" where
  "starred_cols n m st = {c. c < m \<and> (\<exists>r<n. st ! (r + n * c))}"

definition cover_ok :: "nat \<Rightarrow> nat \<Rightarrow> hstate \<Rightarrow> bool" where
  \<comment> \<open>every star is covered by exactly one line, and every covering line holds a star\<close>
  "cover_ok n m s \<longleftrightarrow>
     (\<forall>r<n. \<forall>c<m. starMatrix s ! (r + n * c) \<longrightarrow> (coveredColumns s ! c \<longleftrightarrow> \<not> coveredRows s ! r)) \<and>
     (\<forall>c<m. coveredColumns s ! c \<longrightarrow> c \<in> starred_cols n m (starMatrix s)) \<and>
     (\<forall>r<n. coveredRows s ! r \<longrightarrow> (\<exists>c<m. starMatrix s ! (r + n * c)))"

definition ranked :: "nat \<Rightarrow> nat \<Rightarrow> hstate \<Rightarrow> (nat \<Rightarrow> nat) \<Rightarrow> bool" where
  \<comment> \<open>the star in the column of a prime lies in a row of smaller rank than the prime\<close>
  "ranked n m s rank \<longleftrightarrow>
     (\<forall>r<n. \<forall>c<m. \<forall>r'<n.
        primeMatrix s ! (r + n * c) \<longrightarrow> starMatrix s ! (r' + n * c) \<longrightarrow> rank r' < rank r)"

definition prime_ok :: "nat \<Rightarrow> nat \<Rightarrow> hstate \<Rightarrow> bool" where
  "prime_ok n m s \<longleftrightarrow>
     (\<forall>r<n. \<forall>c<m. primeMatrix s ! (r + n * c) \<longrightarrow> \<not> coveredColumns s ! c) \<and>
     (\<forall>r<n. coveredRows s ! r \<longrightarrow> (\<exists>c<m. primeMatrix s ! (r + n * c)))"

definition inv2a :: "nat \<Rightarrow> nat \<Rightarrow> hstate \<Rightarrow> bool" where
  "inv2a n m s \<longleftrightarrow>
     wf_state n m s \<and> matching n m (starMatrix s) \<and>
     (\<forall>i<n * m. \<not> primeMatrix s ! i) \<and> (\<forall>r<n. \<not> coveredRows s ! r) \<and>
     (\<forall>c<m. coveredColumns s ! c \<longrightarrow> c \<in> starred_cols n m (starMatrix s))"

definition inv2b :: "nat \<Rightarrow> nat \<Rightarrow> hstate \<Rightarrow> bool" where
  "inv2b n m s \<longleftrightarrow>
     inv2a n m s \<and> (\<forall>c<m. c \<in> starred_cols n m (starMatrix s) \<longrightarrow> coveredColumns s ! c)"

definition inv3 :: "nat \<Rightarrow> nat \<Rightarrow> nat \<Rightarrow> hstate \<Rightarrow> bool" where
  "inv3 n m minDim s \<longleftrightarrow>
     wf_state n m s \<and> matching n m (starMatrix s) \<and> cover_ok n m s \<and> prime_ok n m s \<and>
     (\<exists>rank. ranked n m s rank) \<and>
     (\<forall>r<n. \<forall>c<m. primeMatrix s ! (r + n * c) \<longrightarrow> coveredRows s ! r) \<and>
     card (starred_cols n m (starMatrix s)) < minDim"

definition inv4 :: "nat \<Rightarrow> nat \<Rightarrow> nat \<Rightarrow> nat \<Rightarrow> hstate \<Rightarrow> bool" where
  "inv4 n m row col s \<longleftrightarrow>
     wf_state n m s \<and> matching n m (starMatrix s) \<and> cover_ok n m s \<and> prime_ok n m s \<and>
     (\<exists>rank. ranked n m s rank) \<and>
     row < n \<and> col < m \<and> primeMatrix s ! (row + n * col) \<and>
     (\<forall>c<m. \<not> starMatrix s ! (row + n * c))"

definition inv4loop :: "nat \<Rightarrow> nat \<Rightarrow> nat \<Rightarrow> nat \<Rightarrow> hstate \<Rightarrow> bool" where
  "inv4loop n m starRow starCol s \<longleftrightarrow>
     wf_state n m s \<and> matching n m (starMatrix s) \<and> cover_ok n m s \<and> prime_ok n m s \<and>
     starCol < m \<and>
     starRow = first_index (\<lambda>r. starMatrix s ! (r + n * starCol)) n \<and>
     rows_le1 n m (newStarMatrix s) \<and>
     (\<forall>c<m. c \<noteq> starCol \<longrightarrow> col_le1 n (newStarMatrix s) c) \<and>
     (\<forall>r<n. \<forall>r'<n. r \<noteq> starRow \<longrightarrow> r' \<noteq> starRow \<longrightarrow>
        newStarMatrix s ! (r + n * starCol) \<longrightarrow> newStarMatrix s ! (r' + n * starCol) \<longrightarrow> r = r') \<and>
     (\<forall>c<m. c \<noteq> starCol \<longrightarrow> c \<in> starred_cols n m (starMatrix s) \<longrightarrow>
        c \<in> starred_cols n m (newStarMatrix s)) \<and>
     (\<exists>rank K pr.
        ranked n m s rank \<and>
        pr < n \<and> pr \<noteq> starRow \<and> primeMatrix s ! (pr + n * starCol) \<and>
        newStarMatrix s ! (pr + n * starCol) \<and>
        (starRow < n \<longrightarrow> rank starRow < K) \<and>
        (\<forall>r<n. rank r < K \<longrightarrow> (\<forall>c<m. newStarMatrix s ! (r + n * c) = starMatrix s ! (r + n * c))) \<and>
        (\<forall>c<m. c \<noteq> starCol \<longrightarrow>
           (\<forall>r<n. newStarMatrix s ! (r + n * c) = starMatrix s ! (r + n * c)) \<or>
           (\<exists>r'<n. starMatrix s ! (r' + n * c) \<and> K \<le> rank r')))"

fun inv :: "nat \<Rightarrow> nat \<Rightarrow> nat \<Rightarrow> call \<times> hstate \<Rightarrow> bool" where
  "inv n m minDim (Step2a, s) = inv2a n m s"
| "inv n m minDim (Step2b, s) = inv2b n m s"
| "inv n m minDim (Step3, s) = inv3 n m minDim s"
| "inv n m minDim (Step4 row col, s) =
     (inv4 n m row col s \<and> card (starred_cols n m (starMatrix s)) < minDim)"
| "inv n m minDim (Step4Loop starRow starCol, s) =
     (inv4loop n m starRow starCol s \<and> card (starred_cols n m (starMatrix s)) < minDim)"
| "inv n m minDim (Step5, s) = inv3 n m minDim s"

definition finished :: "nat \<Rightarrow> nat \<Rightarrow> nat \<Rightarrow> hstate \<Rightarrow> bool" where
  \<comment> \<open>what holds when \<open>step2b\<close> ends the algorithm\<close>
  "finished n m minDim s \<longleftrightarrow>
     length (distMatrix s) = n * m \<and> length (starMatrix s) = n * m \<and>
     matching n m (starMatrix s) \<and>
     card (starred_cols n m (starMatrix s)) = minDim \<and>
     assignment s = buildassignmentvector (replicate n (- 1)) (starMatrix s) n m"

definition unc_rows :: "nat \<Rightarrow> hstate \<Rightarrow> nat" where
  "unc_rows n s = card {r. r < n \<and> \<not> coveredRows s ! r}"

definition untouched :: "nat \<Rightarrow> nat \<Rightarrow> hstate \<Rightarrow> nat" where
  "untouched n m s =
     card {r. r < n \<and> (\<forall>c<m. newStarMatrix s ! (r + n * c) = starMatrix s ! (r + n * c))}"

definition unc_cells :: "nat \<Rightarrow> nat \<Rightarrow> hstate \<Rightarrow> (nat \<times> nat) set" where
  "unc_cells n m s =
     {(r, c). r < n \<and> c < m \<and> \<not> coveredRows s ! r \<and> \<not> coveredColumns s ! c}"

definition zero_unc :: "nat \<Rightarrow> nat \<Rightarrow> hstate \<Rightarrow> bool" where
  "zero_unc n m s \<longleftrightarrow> (\<exists>(r, c)\<in>unc_cells n m s. is_zero (distMatrix s ! (r + n * c)))"

definition min_unc :: "nat \<Rightarrow> nat \<Rightarrow> hstate \<Rightarrow> real" where
  "min_unc n m s = Min ((\<lambda>(r, c). distMatrix s ! (r + n * c)) ` unc_cells n m s)"

definition sweeps_left :: "nat \<Rightarrow> nat \<Rightarrow> hstate \<Rightarrow> nat" where
  \<comment> \<open>how often \<open>DBL_MAX\<close> fits below the smallest uncovered element\<close>
  "sweeps_left n m s = nat \<lfloor>min_unc n m s / DBL_MAX\<rfloor>"

definition phase :: "call \<Rightarrow> nat" where
  "phase c = (case c of Step2a \<Rightarrow> 5 | Step2b \<Rightarrow> 4 | Step3 \<Rightarrow> 3 | Step5 \<Rightarrow> 3
              | Step4 _ _ \<Rightarrow> 2 | Step4Loop _ _ \<Rightarrow> 1)"

definition progress :: "nat \<Rightarrow> nat \<Rightarrow> call \<times> hstate \<Rightarrow> nat" where
  "progress n m cs =
     (case fst cs of
        Step3 \<Rightarrow> unc_rows n (snd cs)
      | Step5 \<Rightarrow> unc_rows n (snd cs)
      | Step4Loop _ _ \<Rightarrow> untouched n m (snd cs)
      | _ \<Rightarrow> 0)"

definition pending :: "nat \<Rightarrow> nat \<Rightarrow> call \<times> hstate \<Rightarrow> nat" where
  "pending n m cs =
     (case fst cs of
        Step3 \<Rightarrow> (if zero_unc n m (snd cs) then 0 else 2 + 2 * sweeps_left n m (snd cs))
      | Step5 \<Rightarrow> 1 + 2 * sweeps_left n m (snd cs)
      | _ \<Rightarrow> 0)"

definition step_order :: "nat \<Rightarrow> nat \<Rightarrow> ((call \<times> hstate) \<times> (call \<times> hstate)) set" where
  \<comment> \<open>every call is smaller than the call that makes it\<close>
  "step_order n m =
     measures [\<lambda>cs. m - card (starred_cols n m (starMatrix (snd cs))),
               \<lambda>cs. phase (fst cs),
               progress n m,
               pending n m]"

definition step3_post ::
  "nat \<Rightarrow> nat \<Rightarrow> nat \<Rightarrow> nat list \<Rightarrow> bool \<Rightarrow> hstate
     \<Rightarrow> (nat \<times> nat \<times> hstate) + (bool \<times> hstate) \<Rightarrow> bool" where
  "step3_post n m md cols zf s res =
     (case res of
        Inl (row, col, s') \<Rightarrow>
          inv4 n m row col s' \<and> starMatrix s' = starMatrix s \<and> distMatrix s' = distMatrix s
      | Inr (zf', s') \<Rightarrow>
          inv3 n m md s' \<and> starMatrix s' = starMatrix s \<and> distMatrix s' = distMatrix s \<and>
          (zf \<longrightarrow> zf') \<and> unc_rows n s' \<le> unc_rows n s \<and>
          (zf' \<and> \<not> zf \<longrightarrow> unc_rows n s' < unc_rows n s) \<and>
          (\<not> zf' \<longrightarrow> s' = s \<and>
             (\<forall>c\<in>set cols. \<forall>r<n. \<not> coveredColumns s ! c \<longrightarrow> \<not> coveredRows s ! r \<longrightarrow>
                \<not> is_zero (distMatrix s ! (r + n * c)))))"

definition blank :: "nat \<Rightarrow> nat \<Rightarrow> hstate \<Rightarrow> bool" where
  \<comment> \<open>the state before the first star is set\<close>
  "blank n m s \<longleftrightarrow>
     wf_state n m s \<and> (\<forall>i<n * m. \<not> starMatrix s ! i) \<and> (\<forall>i<n * m. \<not> primeMatrix s ! i) \<and>
     (\<forall>c<m. \<not> coveredColumns s ! c) \<and> (\<forall>r<n. \<not> coveredRows s ! r)"

definition flat :: "real list list \<Rightarrow> real list" where
  \<comment> \<open>the column-major copy of the matrix that \<open>Solve\<close> builds\<close>
  "flat DistMatrix =
     (let nRows = length DistMatrix; nCols = length (hd DistMatrix)
      in fold (\<lambda>i d. fold (\<lambda>j d. d[i + nRows * j := DistMatrix ! i ! j]) [0..<nCols] d)
              [0..<nRows] (replicate (nRows * nCols) 0))"


definition accepted :: "real list list \<Rightarrow> int list \<Rightarrow> nat \<Rightarrow> bool" where
  \<comment> \<open>row \<open>i\<close> is assigned and its cell costs less than 200\<close>
  "accepted cm asg i \<longleftrightarrow> 0 \<le> asg ! i \<and> cm ! i ! nat (asg ! i) < 200"


definition cascade_ok ::
  "('b, 'k) numerics \<Rightarrow> 'b list \<Rightarrow> ('b, 'k) TrackObjectImpl list \<Rightarrow> ('b, 'k) cascade \<Rightarrow> bool" where
  \<comment> \<open>the state of the matching cascade, relative to the tracks \<open>objs0\<close> after \<open>predict\<close>:
      an unmatched track is as predicted, a matched track was updated once from a detection\<close>
  "cascade_ok km boxes objs0 c \<longleftrightarrow>
     (case c of (ub, uo, objs) \<Rightarrow>
        length objs = length objs0 \<and>
        distinct uo \<and> sorted uo \<and> set uo \<subseteq> {..<length objs0} \<and>
        distinct ub \<and> sorted ub \<and> set ub \<subseteq> {..<length boxes} \<and>
        (\<forall>i<length objs0.
           if i \<in> set uo then objs ! i = objs0 ! i
           else (\<exists>b\<in>set boxes. objs ! i = track_update km b (objs0 ! i))))"

definition frame_step ::
  "('b, 'k) numerics \<Rightarrow> 'b list \<Rightarrow> ('b, 'k) TrackObjectImpl \<Rightarrow> ('b, 'k) TrackObjectImpl \<Rightarrow> bool" where
  \<comment> \<open>what one call of \<open>update\<close> does to a track \<open>o0\<close> of the table\<close>
  "frame_step km boxes o0 o1 \<longleftrightarrow>
     o1 = mark_missed (track_predict km o0) \<or>
     (\<exists>b\<in>set boxes. o1 = track_update km b (track_predict km o0))"

inductive reachable :: "('b, 'k) numerics \<Rightarrow> ('b, 'k) TrackerImpl \<Rightarrow> bool" for km where
  initial: "reachable km TrackerImpl_new"
| update: "reachable km t \<Longrightarrow> tracker_update km boxes t = Some (Inr t') \<Longrightarrow> reachable km t'"

definition track_ok :: "('b, 'k) TrackObjectImpl \<Rightarrow> bool" where
  "track_ok tr \<longleftrightarrow>
     0 \<le> time_since_update tr \<and> 1 \<le> hits tr \<and> hits tr \<le> age tr \<and> length (trace tr) \<le> 80"

definition ids_ok :: "('b, 'k) TrackerImpl \<Rightarrow> bool" where
  "ids_ok t \<longleftrightarrow>
     sorted_wrt (<) (map track_id (objects t)) \<and> (\<forall>tr\<in>set (objects t). track_id tr < id_next t)"


definition gating_numerics :: "(nat, unit) numerics" where
  \<comment> \<open>a filter for concrete runs in which every pair of a track and a detection is gated\<close>
  "gating_numerics = unit_numerics\<lparr>kf_ma_distance := (\<lambda>k b. 10)\<rparr>"






section \<open>Proofs about the Hungarian solver\<close>

subsection \<open>Indices of a column-major matrix\<close>

lemma idx_lt: "r < n \<Longrightarrow> c < m \<Longrightarrow> r + n * c < n * (m::nat)"
proof -
  assume r: "r < n" and c: "c < m"
  have "r + n * c < n + n * c" using r by simp
  also have "\<dots> = n * Suc c" by simp
  also have "\<dots> \<le> n * m" using c by (intro mult_le_mono2) simp
  finally show ?thesis .
qed

lemma idx_inj: "r < n \<Longrightarrow> r' < n \<Longrightarrow> r + n * c = r' + n * c' \<longleftrightarrow> r = r' \<and> c = (c'::nat)"
proof
  assume r: "r < n" and r': "r' < n" and eq: "r + n * c = r' + n * c'"
  have "(r + n * c) mod n = (r' + n * c') mod n" using eq by simp
  then have rr: "r = r'" using r r' by simp
  have "(r + n * c) div n = (r' + n * c') div n" using eq by simp
  then have "c = c'" using r r' by simp
  with rr show "r = r' \<and> c = c'" by simp
qed simp

lemma nth_update_idx:
  "r < n \<Longrightarrow> r' < n \<Longrightarrow> c < m \<Longrightarrow> c' < m \<Longrightarrow> length xs = n * m \<Longrightarrow>
   xs[r + n * c := v] ! (r' + n * c') = (if r = r' \<and> c = c' then v else xs ! (r' + n * c'))"
  by (simp add: nth_list_update idx_inj idx_lt)

subsection \<open>Searching loops\<close>

lemma find_upt_None: "find P [0..<k] = None \<longleftrightarrow> (\<forall>i<k. \<not> P i)"
  by (auto simp: find_None_iff)

lemma find_upt_Some:
  "find P [0..<k] = Some i \<longleftrightarrow> i < k \<and> P i \<and> (\<forall>j<i. \<not> P j)"
proof
  assume "find P [0..<k] = Some i"
  then obtain j where j: "j < length [0..<k]" "P ([0..<k] ! j)" "i = [0..<k] ! j"
    "\<forall>l<j. \<not> P ([0..<k] ! l)"
    unfolding find_Some_iff by blast
  then show "i < k \<and> P i \<and> (\<forall>j<i. \<not> P j)" by auto
next
  assume a: "i < k \<and> P i \<and> (\<forall>j<i. \<not> P j)"
  show "find P [0..<k] = Some i"
    unfolding find_Some_iff
    by (rule exI [of _ i]) (use a in auto)
qed

lemma first_index_cases:
  obtains (none) "first_index P k = k" "\<forall>i<k. \<not> P i"
        | (some) "first_index P k < k" "P (first_index P k)" "\<forall>j<first_index P k. \<not> P j"
proof (cases "find P [0..<k]")
  case None
  then have "first_index P k = k" by (simp add: first_index_def)
  moreover have "\<forall>i<k. \<not> P i" using None by (simp only: find_upt_None)
  ultimately show ?thesis by (rule none)
next
  case (Some i)
  then have "first_index P k = i" by (simp add: first_index_def)
  moreover have "i < k \<and> P i \<and> (\<forall>j<i. \<not> P j)" using Some by (simp add: find_upt_Some)
  ultimately show ?thesis using some by simp
qed

lemma first_index_le: "first_index P k \<le> k"
  by (rule first_index_cases [of P k]) simp_all

lemma first_index_eq: "first_index P k = k \<longleftrightarrow> (\<forall>i<k. \<not> P i)"
  by (rule first_index_cases [of P k]) auto

lemma first_index_lt: "first_index P k < k \<Longrightarrow> P (first_index P k)"
  by (rule first_index_cases [of P k]) simp_all

lemma first_index_unique:
  assumes "i < k" and "P i" and "\<And>j. j < k \<Longrightarrow> P j \<Longrightarrow> j = i"
  shows "first_index P k = i"
proof (rule first_index_cases [of P k])
  assume "first_index P k = k" "\<forall>i<k. \<not> P i"
  with assms(1,2) show ?thesis by simp
next
  assume "first_index P k < k" "P (first_index P k)"
  then show ?thesis by (rule assms(3))
qed

subsection \<open>Loops that update one array element per iteration\<close>

lemma fold_update_prefix:
  "k \<le> length xs \<Longrightarrow>
   fold (\<lambda>i ys. ys[i := g i (ys ! i)]) [0..<k] xs = map (\<lambda>i. g i (xs ! i)) [0..<k] @ drop k xs"
proof (induction k)
  case 0
  then show ?case by simp
next
  case (Suc k)
  then have k: "k < length xs" by simp
  let ?p = "map (\<lambda>i. g i (xs ! i)) [0..<k]"
  have "fold (\<lambda>i ys. ys[i := g i (ys ! i)]) [0..<Suc k] xs
        = (?p @ drop k xs)[k := g k ((?p @ drop k xs) ! k)]"
    using Suc by simp
  also have "\<dots> = ?p @ (drop k xs)[0 := g k (xs ! k)]"
    using k by (simp add: list_update_append nth_append)
  also have "(drop k xs)[0 := g k (xs ! k)] = g k (xs ! k) # drop (Suc k) xs"
    using k by (simp add: Cons_nth_drop_Suc [symmetric])
  finally show ?case by simp
qed

lemma fold_update_length [simp]:
  "length (fold (\<lambda>i ys. ys[i := g i (ys ! i)]) is xs) = length xs"
  by (induction "is" arbitrary: xs) simp_all

lemma fold_update_nth:
  "k \<le> length xs \<Longrightarrow> j < length xs \<Longrightarrow>
   fold (\<lambda>i ys. ys[i := g i (ys ! i)]) [0..<k] xs ! j = (if j < k then g j (xs ! j) else xs ! j)"
  by (simp add: fold_update_prefix nth_append)

lemma fold_update_all:
  "fold (\<lambda>i ys. ys[i := f (ys ! i)]) [0..<length xs] xs = map f xs"
proof -
  have "map (\<lambda>i. f (xs ! i)) [0..<length xs] = map f (map (\<lambda>i. xs ! i) [0..<length xs])"
    by (simp add: comp_def)
  also have "\<dots> = map f xs" by (simp only: map_nth)
  finally show ?thesis
    using fold_update_prefix [of "length xs" xs "\<lambda>i. f"] by simp
qed

lemma fold_count:
  "fold (\<lambda>i k. if P i then k + 1 else k) [0..<m] a = a + card {i. i < m \<and> P i}"
proof (induction m)
  case 0
  then show ?case by simp
next
  case (Suc m)
  have "{i. i < Suc m \<and> P i} = (if P m then insert m {i. i < m \<and> P i} else {i. i < m \<and> P i})"
    by (auto simp: less_Suc_eq)
  then show ?case using Suc by simp
qed

lemma if_update: "(if P then xs[i := v] else xs) = xs[i := (if P then v else xs ! i)]"
  by simp

lemma step2a_covered:
  assumes "length (coveredColumns s) = m" and "c < m"
  shows "coveredColumns (step2a n m s) ! c
         \<longleftrightarrow> coveredColumns s ! c \<or> c \<in> starred_cols n m (starMatrix s)"
proof -
  have "coveredColumns (step2a n m s) =
        fold (\<lambda>col cc. cc[col := (if list_ex (\<lambda>row. starMatrix s ! (row + n * col)) [0..<n]
                                    then True else cc ! col)])
             [0..<m] (coveredColumns s)"
    by (simp add: step2a_def if_update)
  also have "\<dots> ! c = (if c < m then (if list_ex (\<lambda>row. starMatrix s ! (row + n * c)) [0..<n]
                                    then True else coveredColumns s ! c) else coveredColumns s ! c)"
    using assms
    by (intro fold_update_nth
          [where g = "\<lambda>col x. if list_ex (\<lambda>row. starMatrix s ! (row + n * col)) [0..<n] then True else x"])
       simp_all
  finally show ?thesis
    using assms by (auto simp: list_ex_iff starred_cols_def)
qed

lemma step2a_fields [simp]:
  "assignment (step2a n m s) = assignment s"
  "distMatrix (step2a n m s) = distMatrix s"
  "starMatrix (step2a n m s) = starMatrix s"
  "newStarMatrix (step2a n m s) = newStarMatrix s"
  "primeMatrix (step2a n m s) = primeMatrix s"
  "coveredRows (step2a n m s) = coveredRows s"
  by (simp_all add: step2a_def)

lemma step2a_length [simp]: "length (coveredColumns (step2a n m s)) = length (coveredColumns s)"
  unfolding step2a_def if_update
  using fold_update_length
    [where g = "\<lambda>col x. if list_ex (\<lambda>row. starMatrix s ! (row + n * col)) [0..<n] then True else x"]
  by simp

lemma inv2a_step2a: "inv2a n m s \<Longrightarrow> inv2b n m (step2a n m s)"
  unfolding inv2a_def inv2b_def wf_state_def
  by (simp add: step2a_covered)

lemma nOfCoveredColumns_card:
  "nOfCoveredColumns m s = card {c. c < m \<and> coveredColumns s ! c}"
  by (simp add: nOfCoveredColumns_def fold_count)

lemma inv2b_count:
  assumes "inv2b n m s"
  shows "nOfCoveredColumns m s = card (starred_cols n m (starMatrix s))"
proof -
  have "{c. c < m \<and> coveredColumns s ! c} = starred_cols n m (starMatrix s)"
    using assms unfolding inv2b_def inv2a_def by (auto simp: starred_cols_def)
  then show ?thesis by (simp add: nOfCoveredColumns_card)
qed

lemma starred_cols_le_m: "card (starred_cols n m st) \<le> m"
proof -
  have "starred_cols n m st \<subseteq> {0..<m}" by (auto simp: starred_cols_def)
  then have "card (starred_cols n m st) \<le> card {0..<m}" by (intro card_mono) simp_all
  then show ?thesis by simp
qed

lemma starred_cols_le_n:
  assumes "matching n m st"
  shows "card (starred_cols n m st) \<le> n"
proof -
  let ?row = "\<lambda>c. SOME r. r < n \<and> st ! (r + n * c)"
  have row: "?row c < n \<and> st ! (?row c + n * c)" if "c \<in> starred_cols n m st" for c
  proof -
    from that have "\<exists>r. r < n \<and> st ! (r + n * c)" unfolding starred_cols_def by blast
    then show ?thesis by (rule someI_ex)
  qed
  have inj: "inj_on ?row (starred_cols n m st)"
  proof (rule inj_onI)
    fix c c' assume c: "c \<in> starred_cols n m st" and c': "c' \<in> starred_cols n m st"
      and eq: "?row c = ?row c'"
    have "c < m" "c' < m" using c c' by (auto simp: starred_cols_def)
    moreover have "st ! (?row c + n * c)" "st ! (?row c + n * c')" "?row c < n"
      using row [OF c] row [OF c'] eq by simp_all
    ultimately show "c = c'"
      using assms unfolding matching_def rows_le1_def by blast
  qed
  have "?row ` starred_cols n m st \<subseteq> {0..<n}"
    using row by auto
  then have "card (?row ` starred_cols n m st) \<le> card {0..<n}"
    by (intro card_mono) simp_all
  moreover have "card (?row ` starred_cols n m st) = card (starred_cols n m st)"
    using inj by (rule card_image)
  ultimately show ?thesis by simp
qed

lemma inv2b_inv3:
  assumes "inv2b n m s" and "card (starred_cols n m (starMatrix s)) \<noteq> min n m"
  shows "inv3 n m (min n m) s"
proof -
  have a: "inv2a n m s" and cov: "\<forall>c<m. c \<in> starred_cols n m (starMatrix s) \<longrightarrow> coveredColumns s ! c"
    using assms(1) by (simp_all add: inv2b_def)
  have wf: "wf_state n m s" and mt: "matching n m (starMatrix s)"
    and np: "\<forall>i<n * m. \<not> primeMatrix s ! i" and nr: "\<forall>r<n. \<not> coveredRows s ! r"
    and sub: "\<forall>c<m. coveredColumns s ! c \<longrightarrow> c \<in> starred_cols n m (starMatrix s)"
    using a by (simp_all add: inv2a_def)
  have np': "\<not> primeMatrix s ! (r + n * c)" if "r < n" "c < m" for r c
    using np idx_lt [OF that] by simp
  have "cover_ok n m s"
    unfolding cover_ok_def using cov nr sub by (auto simp: starred_cols_def)
  moreover have "prime_ok n m s"
    unfolding prime_ok_def using np' nr by simp
  moreover have "ranked n m s (\<lambda>_. 0)"
    unfolding ranked_def using np' by simp
  moreover have "card (starred_cols n m (starMatrix s)) < min n m"
    using starred_cols_le_m [of n m "starMatrix s"] starred_cols_le_n [OF mt] assms(2)
    unfolding min_def by (simp split: if_splits)
  ultimately show ?thesis
    unfolding inv3_def using wf mt np' by blast
qed

lemma rank_above:
  fixes rank :: "nat \<Rightarrow> nat"
  shows "r' < n \<Longrightarrow> rank r' < Suc (Max (rank ` {..<n}))"
  by (simp add: less_Suc_eq_le)

text \<open>Priming an uncovered zero keeps the primes ranked.\<close>

lemma ranked_prime:
  assumes rk: "ranked n m s rank"
    and wf: "wf_state n m s"
    and pc: "\<forall>r<n. \<forall>c<m. primeMatrix s ! (r + n * c) \<longrightarrow> coveredRows s ! r"
    and row: "row < n" "\<not> coveredRows s ! row" and col: "col < m"
    and nostar_col: "\<not> starMatrix s ! (row + n * col)"
    and nostar': "\<forall>r<n. \<forall>c<m. primeMatrix s ! (r + n * c) \<longrightarrow> \<not> starMatrix s ! (row + n * c)"
  shows "ranked n m (s\<lparr>primeMatrix := (primeMatrix s)[row + n * col := True]\<rparr>)
           (rank(row := Suc (Max (rank ` {..<n}))))"
  unfolding ranked_def
proof (intro allI impI)
  fix r c r'
  assume r: "r < n" and c: "c < m" and r': "r' < n"
    and p: "primeMatrix (s\<lparr>primeMatrix := (primeMatrix s)[row + n * col := True]\<rparr>) ! (r + n * c)"
    and st: "starMatrix (s\<lparr>primeMatrix := (primeMatrix s)[row + n * col := True]\<rparr>) ! (r' + n * c)"
  let ?rank = "rank(row := Suc (Max (rank ` {..<n})))"
  have len: "length (primeMatrix s) = n * m" using wf by (simp add: wf_state_def)
  have p': "(r = row \<and> c = col) \<or> primeMatrix s ! (r + n * c)"
    using p r c row col len by (simp add: nth_update_idx split: if_splits)
  have st': "starMatrix s ! (r' + n * c)" using st by simp
  show "?rank r' < ?rank r"
  proof (cases "r = row")
    case True
    then have "c = col" using p' pc r c row by blast
    then have "r' \<noteq> row" using st' nostar_col by auto
    then show ?thesis using True rank_above [OF r'] by simp
  next
    case False
    then have pr: "primeMatrix s ! (r + n * c)" using p' by simp
    then have "r' \<noteq> row" using nostar' r c st' by blast
    then show ?thesis
      using False pr st' rk r c r' unfolding ranked_def by simp
  qed
qed

lemma uncovered_no_star:
  assumes "cover_ok n m s" "row < n" "\<not> coveredRows s ! row" "c < m" "\<not> coveredColumns s ! c"
  shows "\<not> starMatrix s ! (row + n * c)"
  using assms unfolding cover_ok_def by blast

lemma prime_col_no_uncovered_star:
  assumes "cover_ok n m s" "prime_ok n m s" "row < n" "\<not> coveredRows s ! row"
    "r < n" "c < m" "primeMatrix s ! (r + n * c)"
  shows "\<not> starMatrix s ! (row + n * c)"
  using assms unfolding cover_ok_def prime_ok_def by blast

lemma inv3_prime_free:
  assumes i3: "inv3 n m md s"
    and row: "row < n" "\<not> coveredRows s ! row" and col: "col < m" "\<not> coveredColumns s ! col"
    and free: "\<forall>c<m. \<not> starMatrix s ! (row + n * c)"
  shows "inv4 n m row col (s\<lparr>primeMatrix := (primeMatrix s)[row + n * col := True]\<rparr>)"
proof -
  let ?s = "s\<lparr>primeMatrix := (primeMatrix s)[row + n * col := True]\<rparr>"
  from i3 obtain rank where wf: "wf_state n m s" and mt: "matching n m (starMatrix s)"
    and cv: "cover_ok n m s" and po: "prime_ok n m s" and rk: "ranked n m s rank"
    and pc: "\<forall>r<n. \<forall>c<m. primeMatrix s ! (r + n * c) \<longrightarrow> coveredRows s ! r"
    unfolding inv3_def by blast
  have len: "length (primeMatrix s) = n * m" using wf by (simp add: wf_state_def)
  have upd: "primeMatrix ?s ! (r + n * c) \<longleftrightarrow> (r = row \<and> c = col) \<or> primeMatrix s ! (r + n * c)"
    if "r < n" "c < m" for r c
    using that row col len by (auto simp: nth_update_idx)
  have "wf_state n m ?s" using wf by (simp add: wf_state_def)
  moreover have "matching n m (starMatrix ?s)" using mt by simp
  moreover have "cover_ok n m ?s" using cv by (simp add: cover_ok_def)
  moreover have "prime_ok n m ?s"
    unfolding prime_ok_def
  proof (intro conjI allI impI)
    fix r c assume "r < n" "c < m" "primeMatrix ?s ! (r + n * c)"
    then show "\<not> coveredColumns ?s ! c"
      using upd po col unfolding prime_ok_def by auto
  next
    fix r assume "r < n" "coveredRows ?s ! r"
    then obtain c where "c < m" "primeMatrix s ! (r + n * c)"
      using po unfolding prime_ok_def by auto
    then show "\<exists>c<m. primeMatrix ?s ! (r + n * c)"
      using upd \<open>r < n\<close> by blast
  qed
  moreover have "ranked n m ?s (rank(row := Suc (Max (rank ` {..<n}))))"
    using rk wf pc row col(1) free
    by (intro ranked_prime) (auto simp: col)
  moreover have "primeMatrix ?s ! (row + n * col)" using upd row col by simp
  moreover have "\<forall>c<m. \<not> starMatrix ?s ! (row + n * c)" using free by simp
  ultimately show ?thesis
    unfolding inv4_def using row col by blast
qed

lemma inv3_prime_cover:
  assumes i3: "inv3 n m md s"
    and row: "row < n" "\<not> coveredRows s ! row" and col: "col < m" "\<not> coveredColumns s ! col"
    and sc: "starCol < m" "starMatrix s ! (row + n * starCol)"
  shows "inv3 n m md (s\<lparr>primeMatrix := (primeMatrix s)[row + n * col := True],
                         coveredRows := (coveredRows s)[row := True],
                         coveredColumns := (coveredColumns s)[starCol := False]\<rparr>)" (is "inv3 n m md ?s")
    and "unc_rows n (s\<lparr>primeMatrix := (primeMatrix s)[row + n * col := True],
                         coveredRows := (coveredRows s)[row := True],
                         coveredColumns := (coveredColumns s)[starCol := False]\<rparr>) < unc_rows n s"
proof -
  from i3 obtain rank where wf: "wf_state n m s" and mt: "matching n m (starMatrix s)"
    and cv: "cover_ok n m s" and po: "prime_ok n m s" and rk: "ranked n m s rank"
    and pc: "\<forall>r<n. \<forall>c<m. primeMatrix s ! (r + n * c) \<longrightarrow> coveredRows s ! r"
    and cd: "card (starred_cols n m (starMatrix s)) < md"
    unfolding inv3_def by blast
  have len: "length (primeMatrix s) = n * m" "length (coveredRows s) = n" "length (coveredColumns s) = m"
    using wf by (simp_all add: wf_state_def)
  let ?s1 = "s\<lparr>primeMatrix := (primeMatrix s)[row + n * col := True]\<rparr>"
  have upd: "primeMatrix ?s ! (r + n * c) \<longleftrightarrow> (r = row \<and> c = col) \<or> primeMatrix s ! (r + n * c)"
    if "r < n" "c < m" for r c
    using that row col len by (auto simp: nth_update_idx)
  have rc: "coveredRows ?s ! r \<longleftrightarrow> r = row \<or> coveredRows s ! r" if "r < n" for r
    using that len row by (auto simp: nth_list_update)
  have cc: "coveredColumns ?s ! c \<longleftrightarrow> c \<noteq> starCol \<and> coveredColumns s ! c" if "c < m" for c
    using that len sc(1) by (cases "c = starCol") simp_all
  have st: "starMatrix ?s = starMatrix s" by simp
  have row1: "c = starCol" if "c < m" "starMatrix s ! (row + n * c)" for c
    using that sc row mt unfolding matching_def rows_le1_def by blast
  have col1: "r = row" if "r < n" "starMatrix s ! (r + n * starCol)" for r
    using that sc row mt unfolding matching_def col_le1_def by blast
  have nostar_col: "\<not> starMatrix s ! (row + n * col)"
    using uncovered_no_star [OF cv row col] .
  have nostar': "\<forall>r<n. \<forall>c<m. primeMatrix s ! (r + n * c) \<longrightarrow> \<not> starMatrix s ! (row + n * c)"
    using prime_col_no_uncovered_star [OF cv po row] by blast
  have "wf_state n m ?s" using wf by (simp add: wf_state_def)
  moreover have "matching n m (starMatrix ?s)" using mt by simp
  moreover have "cover_ok n m ?s"
    unfolding cover_ok_def st
  proof (intro conjI allI impI)
    fix r c assume a: "r < n" "c < m" "starMatrix s ! (r + n * c)"
    show "coveredColumns ?s ! c \<longleftrightarrow> \<not> coveredRows ?s ! r"
    proof (cases "r = row")
      case True
      then show ?thesis using a row1 rc cc by auto
    next
      case False
      then have "c \<noteq> starCol" using a col1 by auto
      then show ?thesis using False a rc cc cv unfolding cover_ok_def by auto
    qed
  next
    fix c assume "c < m" "coveredColumns ?s ! c"
    then show "c \<in> starred_cols n m (starMatrix s)"
      using cc cv unfolding cover_ok_def by auto
  next
    fix r assume "r < n" "coveredRows ?s ! r"
    then show "\<exists>c<m. starMatrix s ! (r + n * c)"
      using rc sc cv unfolding cover_ok_def by auto
  qed
  moreover have "prime_ok n m ?s"
    unfolding prime_ok_def
  proof (intro conjI allI impI)
    fix r c assume "r < n" "c < m" "primeMatrix ?s ! (r + n * c)"
    then show "\<not> coveredColumns ?s ! c"
      using upd cc po col unfolding prime_ok_def by auto
  next
    fix r assume r: "r < n" "coveredRows ?s ! r"
    show "\<exists>c<m. primeMatrix ?s ! (r + n * c)"
    proof (cases "r = row")
      case True
      then show ?thesis using upd [of row col] row col by auto
    next
      case False
      then obtain c where "c < m" "primeMatrix s ! (r + n * c)"
        using r rc po unfolding prime_ok_def by auto
      then show ?thesis using upd r by blast
    qed
  qed
  moreover have "\<exists>rank. ranked n m ?s rank"
  proof -
    have "ranked n m ?s1 (rank(row := Suc (Max (rank ` {..<n}))))"
      using rk wf pc row col(1) nostar_col nostar' by (rule ranked_prime)
    then have "ranked n m ?s (rank(row := Suc (Max (rank ` {..<n}))))"
      by (simp add: ranked_def)
    then show ?thesis by blast
  qed
  moreover have "\<forall>r<n. \<forall>c<m. primeMatrix ?s ! (r + n * c) \<longrightarrow> coveredRows ?s ! r"
    using upd rc pc by auto
  moreover have "card (starred_cols n m (starMatrix ?s)) < md" using cd by simp
  ultimately show "inv3 n m md ?s" unfolding inv3_def by blast
  have eq: "{r. r < n \<and> \<not> coveredRows ?s ! r} = {r. r < n \<and> \<not> coveredRows s ! r} - {row}"
    using rc by auto
  have "row \<in> {r. r < n \<and> \<not> coveredRows s ! r}" using row by simp
  moreover have "finite {r. r < n \<and> \<not> coveredRows s ! r}" by simp
  ultimately have "card ({r. r < n \<and> \<not> coveredRows s ! r} - {row}) < card {r. r < n \<and> \<not> coveredRows s ! r}"
    by (intro card_Diff1_less)
  then show "unc_rows n ?s < unc_rows n s"
    unfolding unc_rows_def eq .
qed

lemma step3_cols_post:
  assumes "inv3 n m md s" and "set cols \<subseteq> {..<m}"
  shows "step3_post n m md cols zf s (step3_cols n m cols zf s)"
  using assms
proof (induction cols arbitrary: s zf)
  case Nil
  then show ?case by (simp add: step3_post_def)
next
  case (Cons col cols)
  have col: "col < m" and cols: "set cols \<subseteq> {..<m}" using Cons.prems(2) by auto
  note IH = Cons.IH [OF _ cols]
  show ?case
  proof (cases "coveredColumns s ! col")
    case True
    have "step3_post n m md cols zf s (step3_cols n m cols zf s)"
      using IH Cons.prems(1) by blast
    then show ?thesis
      using True by (auto simp: step3_post_def split: sum.splits)
  next
    case unc: False
    show ?thesis
    proof (cases "find (\<lambda>row. \<not> coveredRows s ! row \<and> is_zero (distMatrix s ! (row + n * col))) [0..<n]")
      case None
      then have nz: "\<forall>r<n. \<not> coveredRows s ! r \<longrightarrow> \<not> is_zero (distMatrix s ! (r + n * col))"
        by (auto simp: find_upt_None)
      have "step3_post n m md cols zf s (step3_cols n m cols zf s)"
        using IH Cons.prems(1) by blast
      then show ?thesis
        using unc None nz by (auto simp: step3_post_def split: sum.splits)
    next
      case (Some row)
      then have row: "row < n" "\<not> coveredRows s ! row"
        by (auto simp: find_upt_Some)
      let ?s1 = "s\<lparr>primeMatrix := (primeMatrix s)[row + n * col := True]\<rparr>"
      let ?sc = "first_index (\<lambda>c. starMatrix ?s1 ! (row + n * c)) m"
      show ?thesis
      proof (cases "?sc = m")
        case True
        then have "\<forall>c<m. \<not> starMatrix s ! (row + n * c)"
          by (simp add: first_index_eq)
        then have "inv4 n m row col ?s1"
          using Cons.prems(1) row col unc by (intro inv3_prime_free)
        then show ?thesis
          using unc Some True by (simp add: step3_post_def Let_def)
      next
        case False
        then have sc: "?sc < m" "starMatrix s ! (row + n * ?sc)"
          using first_index_le [of "\<lambda>c. starMatrix ?s1 ! (row + n * c)" m]
            first_index_lt [of "\<lambda>c. starMatrix ?s1 ! (row + n * c)" m]
          by simp_all
        let ?s2 = "?s1\<lparr>coveredRows := (coveredRows ?s1)[row := True],
                        coveredColumns := (coveredColumns ?s1)[?sc := False]\<rparr>"
        have s2: "?s2 = s\<lparr>primeMatrix := (primeMatrix s)[row + n * col := True],
                           coveredRows := (coveredRows s)[row := True],
                           coveredColumns := (coveredColumns s)[?sc := False]\<rparr>"
          by simp
        have i3: "inv3 n m md ?s2" and lt: "unc_rows n ?s2 < unc_rows n s"
          unfolding s2
          using inv3_prime_cover [OF Cons.prems(1) row col unc sc(1)] sc(2) by simp_all
        have post: "step3_post n m md cols True ?s2 (step3_cols n m cols True ?s2)"
          using IH i3 by blast
        have eq: "step3_cols n m (col # cols) zf s = step3_cols n m cols True ?s2"
          using unc Some False by (simp add: Let_def)
        show ?thesis
          unfolding eq using post lt
          by (auto simp: step3_post_def split: sum.splits)
      qed
    qed
  qed
qed

lemma first_star_row:
  assumes "col_le1 n st c"
  shows "r < n \<Longrightarrow> st ! (r + n * c) \<Longrightarrow> first_index (\<lambda>r. st ! (r + n * c)) n = r"
  using assms unfolding col_le1_def
  by (intro first_index_unique) auto

lemma inv4_init:
  assumes "inv4 n m row col s"
  shows "inv4loop n m (first_index (\<lambda>r. starMatrix s ! (r + n * col)) n) col
           (s\<lparr>newStarMatrix := (starMatrix s)[row + n * col := True]\<rparr>)"
proof -
  let ?s = "s\<lparr>newStarMatrix := (starMatrix s)[row + n * col := True]\<rparr>"
  let ?sr = "first_index (\<lambda>r. starMatrix s ! (r + n * col)) n"
  from assms obtain rank where wf: "wf_state n m s" and mt: "matching n m (starMatrix s)"
    and cv: "cover_ok n m s" and po: "prime_ok n m s" and rk: "ranked n m s rank"
    and row: "row < n" and col: "col < m" and pr: "primeMatrix s ! (row + n * col)"
    and free: "\<forall>c<m. \<not> starMatrix s ! (row + n * c)"
    unfolding inv4_def by blast
  have len: "length (starMatrix s) = n * m" using wf by (simp add: wf_state_def)
  have new: "newStarMatrix ?s ! (r + n * c) \<longleftrightarrow> (r = row \<and> c = col) \<or> starMatrix s ! (r + n * c)"
    if "r < n" "c < m" for r c
    using that row col len by (auto simp: nth_update_idx)
  have rows: "rows_le1 n m (starMatrix s)" and cols: "\<And>c. c < m \<Longrightarrow> col_le1 n (starMatrix s) c"
    using mt by (simp_all add: matching_def)
  have sr: "r = ?sr" if "r < n" "starMatrix s ! (r + n * col)" for r
    using first_star_row [OF cols [OF col] that] by simp
  have sr_star: "starMatrix s ! (?sr + n * col)" if "?sr < n"
    using first_index_lt [OF that] .
  have neq: "row \<noteq> ?sr"
  proof
    assume e: "row = ?sr"
    then have "?sr < n" using row by simp
    from sr_star [OF this] show False using e free col by simp
  qed
  have "wf_state n m ?s" using wf by (simp add: wf_state_def)
  moreover have "matching n m (starMatrix ?s)" "cover_ok n m ?s" "prime_ok n m ?s"
    using mt cv po by (simp_all add: cover_ok_def prime_ok_def)
  moreover have "rows_le1 n m (newStarMatrix ?s)"
    unfolding rows_le1_def
  proof (intro allI impI)
    fix r c c' assume a: "r < n" "c < m" "c' < m"
      "newStarMatrix ?s ! (r + n * c)" "newStarMatrix ?s ! (r + n * c')"
    show "c = c'"
    proof (cases "r = row")
      case True
      then show ?thesis using a new free by auto
    next
      case False
      then show ?thesis using a new rows unfolding rows_le1_def by auto
    qed
  qed
  moreover have "\<forall>c<m. c \<noteq> col \<longrightarrow> col_le1 n (newStarMatrix ?s) c"
  proof (intro allI impI)
    fix c assume c: "c < m" "c \<noteq> col"
    show "col_le1 n (newStarMatrix ?s) c"
      using cols [OF c(1)] c new unfolding col_le1_def by auto
  qed
  moreover have "\<forall>r<n. \<forall>r'<n. r \<noteq> ?sr \<longrightarrow> r' \<noteq> ?sr \<longrightarrow>
        newStarMatrix ?s ! (r + n * col) \<longrightarrow> newStarMatrix ?s ! (r' + n * col) \<longrightarrow> r = r'"
    using new sr col by blast
  moreover have "\<forall>c<m. c \<noteq> col \<longrightarrow> c \<in> starred_cols n m (starMatrix ?s) \<longrightarrow>
        c \<in> starred_cols n m (newStarMatrix ?s)"
    using new unfolding starred_cols_def by auto
  moreover have "\<exists>rank K pr.
        ranked n m ?s rank \<and>
        pr < n \<and> pr \<noteq> ?sr \<and> primeMatrix ?s ! (pr + n * col) \<and>
        newStarMatrix ?s ! (pr + n * col) \<and>
        (?sr < n \<longrightarrow> rank ?sr < K) \<and>
        (\<forall>r<n. rank r < K \<longrightarrow> (\<forall>c<m. newStarMatrix ?s ! (r + n * c) = starMatrix ?s ! (r + n * c))) \<and>
        (\<forall>c<m. c \<noteq> col \<longrightarrow>
           (\<forall>r<n. newStarMatrix ?s ! (r + n * c) = starMatrix ?s ! (r + n * c)) \<or>
           (\<exists>r'<n. starMatrix ?s ! (r' + n * c) \<and> K \<le> rank r'))"
  proof (intro exI conjI)
    show "ranked n m ?s rank" using rk by (simp add: ranked_def)
    show "row < n" by fact
    show "row \<noteq> ?sr" by fact
    show "primeMatrix ?s ! (row + n * col)" using pr by simp
    show "newStarMatrix ?s ! (row + n * col)" using new row col by simp
    show "?sr < n \<longrightarrow> rank ?sr < rank row"
      using sr_star rk pr row col unfolding ranked_def by blast
    show "\<forall>r<n. rank r < rank row \<longrightarrow>
            (\<forall>c<m. newStarMatrix ?s ! (r + n * c) = starMatrix ?s ! (r + n * c))"
      using new by auto
    show "\<forall>c<m. c \<noteq> col \<longrightarrow>
           (\<forall>r<n. newStarMatrix ?s ! (r + n * c) = starMatrix ?s ! (r + n * c)) \<or>
           (\<exists>r'<n. starMatrix ?s ! (r' + n * c) \<and> rank row \<le> rank r')"
      using new by auto
  qed
  ultimately show ?thesis
    unfolding inv4loop_def using col by simp
qed

lemma inv4loop_body:
  assumes inv: "inv4loop n m sr sc s" and srn: "sr < n"
  defines "pc \<equiv> first_index (\<lambda>c. primeMatrix s ! (sr + n * c)) m"
  defines "s' \<equiv> s\<lparr>newStarMatrix := (newStarMatrix s)[sr + n * sc := False, sr + n * pc := True]\<rparr>"
  defines "sr' \<equiv> first_index (\<lambda>r. starMatrix s ! (r + n * pc)) n"
  shows "step4_body n m sr sc s = Inr (Step4Loop sr' pc, s')"
    and "inv4loop n m sr' pc s'"
    and "untouched n m s' < untouched n m s"
    and "pc < m" and "primeMatrix s ! (sr + n * pc)" and "sc < m"
proof -
  from inv obtain rank K pr where
    wf: "wf_state n m s" and mt: "matching n m (starMatrix s)"
    and cv: "cover_ok n m s" and po: "prime_ok n m s"
    and sc: "sc < m"
    and sr_def: "sr = first_index (\<lambda>r. starMatrix s ! (r + n * sc)) n"
    and nrows: "rows_le1 n m (newStarMatrix s)"
    and ncols: "\<forall>c<m. c \<noteq> sc \<longrightarrow> col_le1 n (newStarMatrix s) c"
    and ncur: "\<forall>r<n. \<forall>r'<n. r \<noteq> sr \<longrightarrow> r' \<noteq> sr \<longrightarrow>
        newStarMatrix s ! (r + n * sc) \<longrightarrow> newStarMatrix s ! (r' + n * sc) \<longrightarrow> r = r'"
    and keep: "\<forall>c<m. c \<noteq> sc \<longrightarrow> c \<in> starred_cols n m (starMatrix s) \<longrightarrow>
        c \<in> starred_cols n m (newStarMatrix s)"
    and rk: "ranked n m s rank"
    and pr: "pr < n" "pr \<noteq> sr" "primeMatrix s ! (pr + n * sc)" "newStarMatrix s ! (pr + n * sc)"
    and K: "sr < n \<longrightarrow> rank sr < K"
    and low: "\<forall>r<n. rank r < K \<longrightarrow> (\<forall>c<m. newStarMatrix s ! (r + n * c) = starMatrix s ! (r + n * c))"
    and cols_t: "\<forall>c<m. c \<noteq> sc \<longrightarrow>
           (\<forall>r<n. newStarMatrix s ! (r + n * c) = starMatrix s ! (r + n * c)) \<or>
           (\<exists>r'<n. starMatrix s ! (r' + n * c) \<and> K \<le> rank r')"
    unfolding inv4loop_def by (elim conjE exE) blast
  have len: "length (newStarMatrix s) = n * m" "length (starMatrix s) = n * m"
    using wf by (simp_all add: wf_state_def)
  have rows: "rows_le1 n m (starMatrix s)" and cols: "\<And>c. c < m \<Longrightarrow> col_le1 n (starMatrix s) c"
    using mt by (simp_all add: matching_def)
  \<comment> \<open>the star that is removed\<close>
  have star_sr: "starMatrix s ! (sr + n * sc)"
    using first_index_lt [of "\<lambda>r. starMatrix s ! (r + n * sc)" n] srn sr_def by simp
  have rank_sr: "rank sr < K" using K srn by simp
  \<comment> \<open>its row is covered, hence primed\<close>
  have "\<not> coveredColumns s ! sc" using po pr sc unfolding prime_ok_def by blast
  then have "coveredRows s ! sr" using cv star_sr srn sc unfolding cover_ok_def by blast
  then have "\<exists>c<m. primeMatrix s ! (sr + n * c)" using po srn unfolding prime_ok_def by blast
  then have "pc \<noteq> m" unfolding pc_def by (simp add: first_index_eq)
  then have pc: "pc < m" using first_index_le [of "\<lambda>c. primeMatrix s ! (sr + n * c)" m]
    unfolding pc_def by simp
  have prime_pc: "primeMatrix s ! (sr + n * pc)"
    using first_index_lt [of "\<lambda>c. primeMatrix s ! (sr + n * c)" m] pc unfolding pc_def by simp
  have pc_sc: "pc \<noteq> sc"
    using rk prime_pc star_sr srn pc unfolding ranked_def by (metis less_irrefl)
  show body: "step4_body n m sr sc s = Inr (Step4Loop sr' pc, s')"
    using \<open>pc \<noteq> m\<close> unfolding step4_body_def s'_def sr'_def pc_def by (simp add: Let_def)
  \<comment> \<open>stars in the column of the prime lie lower\<close>
  have below: "rank r < rank sr" if "r < n" "starMatrix s ! (r + n * pc)" for r
    using rk prime_pc that srn pc unfolding ranked_def by blast
  have sr'_star: "starMatrix s ! (sr' + n * pc)" if "sr' < n"
    using first_index_lt [of "\<lambda>r. starMatrix s ! (r + n * pc)" n] that unfolding sr'_def by simp
  have sr'_only: "r = sr'" if "r < n" "starMatrix s ! (r + n * pc)" for r
    using first_star_row [OF cols [OF pc] that] unfolding sr'_def by simp
  have sr'_sr: "sr \<noteq> sr'"
    using below [of sr'] sr'_star srn by auto
  \<comment> \<open>row \<open>sr\<close> and column \<open>pc\<close> have not been changed so far\<close>
  have row_sr: "newStarMatrix s ! (sr + n * c) \<longleftrightarrow> c = sc" if "c < m" for c
  proof -
    have "newStarMatrix s ! (sr + n * c) = starMatrix s ! (sr + n * c)"
      using low srn rank_sr that by blast
    then show ?thesis
      using rows star_sr srn sc that unfolding rows_le1_def by blast
  qed
  have col_pc: "newStarMatrix s ! (r + n * pc) = starMatrix s ! (r + n * pc)" if "r < n" for r
  proof -
    have "\<not> (\<exists>r'<n. starMatrix s ! (r' + n * pc) \<and> K \<le> rank r')"
      using below rank_sr by fastforce
    then show ?thesis using cols_t pc pc_sc that by blast
  qed
  \<comment> \<open>the new temporary star matrix\<close>
  have new: "newStarMatrix s' ! (r + n * c) \<longleftrightarrow>
               (if r = sr \<and> c = pc then True
                else if r = sr \<and> c = sc then False
                else newStarMatrix s ! (r + n * c))"
    if "r < n" "c < m" for r c
    using that srn sc pc len unfolding s'_def by (simp add: nth_update_idx)
  have new_sr: "newStarMatrix s' ! (sr + n * c) \<longleftrightarrow> c = pc" if "c < m" for c
    using new [OF srn that] row_sr [OF that] pc_sc by auto
  have new_other: "newStarMatrix s' ! (r + n * c) = newStarMatrix s ! (r + n * c)"
    if "r < n" "c < m" "r \<noteq> sr" for r c
    using new that by simp
  have st': "starMatrix s' = starMatrix s" "primeMatrix s' = primeMatrix s"
    "coveredRows s' = coveredRows s" "coveredColumns s' = coveredColumns s"
    unfolding s'_def by simp_all
  have "wf_state n m s'" using wf unfolding s'_def by (simp add: wf_state_def)
  moreover have "matching n m (starMatrix s')" "cover_ok n m s'" "prime_ok n m s'"
    using mt cv po unfolding cover_ok_def prime_ok_def st' by simp_all
  moreover have "sr' = first_index (\<lambda>r. starMatrix s' ! (r + n * pc)) n"
    unfolding sr'_def st' ..
  moreover have "rows_le1 n m (newStarMatrix s')"
    unfolding rows_le1_def
  proof (intro allI impI)
    fix r c c' assume a: "r < n" "c < m" "c' < m"
      "newStarMatrix s' ! (r + n * c)" "newStarMatrix s' ! (r + n * c')"
    show "c = c'"
    proof (cases "r = sr")
      case True
      then show ?thesis using a new_sr by simp
    next
      case False
      then show ?thesis using a new_other nrows unfolding rows_le1_def by blast
    qed
  qed
  moreover have "\<forall>c<m. c \<noteq> pc \<longrightarrow> col_le1 n (newStarMatrix s') c"
  proof (intro allI impI)
    fix c assume c: "c < m" "c \<noteq> pc"
    show "col_le1 n (newStarMatrix s') c"
      unfolding col_le1_def
    proof (intro allI impI)
      fix r r' assume a: "r < n" "r' < n"
        "newStarMatrix s' ! (r + n * c)" "newStarMatrix s' ! (r' + n * c)"
      have r: "r \<noteq> sr" "r' \<noteq> sr" using a c new_sr by auto
      then have b: "newStarMatrix s ! (r + n * c)" "newStarMatrix s ! (r' + n * c)"
        using a c new_other by simp_all
      show "r = r'"
      proof (cases "c = sc")
        case True
        then show ?thesis using ncur a r b by blast
      next
        case False
        then show ?thesis using ncols c a b unfolding col_le1_def by blast
      qed
    qed
  qed
  moreover have "\<forall>r<n. \<forall>r'<n. r \<noteq> sr' \<longrightarrow> r' \<noteq> sr' \<longrightarrow>
        newStarMatrix s' ! (r + n * pc) \<longrightarrow> newStarMatrix s' ! (r' + n * pc) \<longrightarrow> r = r'"
  proof (intro allI impI)
    fix r r' assume a: "r < n" "r' < n" "r \<noteq> sr'" "r' \<noteq> sr'"
      "newStarMatrix s' ! (r + n * pc)" "newStarMatrix s' ! (r' + n * pc)"
    have "x = sr" if "x < n" "x \<noteq> sr'" "newStarMatrix s' ! (x + n * pc)" for x
    proof (rule ccontr)
      assume "x \<noteq> sr"
      then have "starMatrix s ! (x + n * pc)"
        using that new_other pc col_pc by simp
      then show False using sr'_only that by simp
    qed
    from this [of r] this [of r'] show "r = r'" using a by simp
  qed
  moreover have "\<forall>c<m. c \<noteq> pc \<longrightarrow> c \<in> starred_cols n m (starMatrix s') \<longrightarrow>
        c \<in> starred_cols n m (newStarMatrix s')"
  proof (intro allI impI)
    fix c assume c: "c < m" "c \<noteq> pc" "c \<in> starred_cols n m (starMatrix s')"
    show "c \<in> starred_cols n m (newStarMatrix s')"
    proof (cases "c = sc")
      case True
      have "newStarMatrix s' ! (pr + n * sc)" using new_other pr sc by simp
      then show ?thesis using True pr sc unfolding starred_cols_def by blast
    next
      case False
      then obtain r where r: "r < n" "newStarMatrix s ! (r + n * c)"
        using keep c unfolding st' starred_cols_def by blast
      have "r \<noteq> sr" using r row_sr c False by auto
      then have "newStarMatrix s' ! (r + n * c)" using new_other r c by simp
      then show ?thesis using r c unfolding starred_cols_def by blast
    qed
  qed
  moreover have "\<exists>rank K pr.
        ranked n m s' rank \<and>
        pr < n \<and> pr \<noteq> sr' \<and> primeMatrix s' ! (pr + n * pc) \<and>
        newStarMatrix s' ! (pr + n * pc) \<and>
        (sr' < n \<longrightarrow> rank sr' < K) \<and>
        (\<forall>r<n. rank r < K \<longrightarrow> (\<forall>c<m. newStarMatrix s' ! (r + n * c) = starMatrix s' ! (r + n * c))) \<and>
        (\<forall>c<m. c \<noteq> pc \<longrightarrow>
           (\<forall>r<n. newStarMatrix s' ! (r + n * c) = starMatrix s' ! (r + n * c)) \<or>
           (\<exists>r'<n. starMatrix s' ! (r' + n * c) \<and> K \<le> rank r'))"
  proof (intro exI conjI)
    show "ranked n m s' rank" using rk unfolding ranked_def st' .
    show "sr < n" by fact
    show "sr \<noteq> sr'" by fact
    show "primeMatrix s' ! (sr + n * pc)" using prime_pc unfolding st' .
    show "newStarMatrix s' ! (sr + n * pc)" using new_sr pc by simp
    show "sr' < n \<longrightarrow> rank sr' < rank sr" using below sr'_star by blast
    show "\<forall>r<n. rank r < rank sr \<longrightarrow>
            (\<forall>c<m. newStarMatrix s' ! (r + n * c) = starMatrix s' ! (r + n * c))"
    proof (intro allI impI)
      fix r c assume a: "r < n" "rank r < rank sr" "c < m"
      then have "r \<noteq> sr" "rank r < K" using rank_sr by auto
      then show "newStarMatrix s' ! (r + n * c) = starMatrix s' ! (r + n * c)"
        using a new_other low unfolding st' by simp
    qed
    show "\<forall>c<m. c \<noteq> pc \<longrightarrow>
           (\<forall>r<n. newStarMatrix s' ! (r + n * c) = starMatrix s' ! (r + n * c)) \<or>
           (\<exists>r'<n. starMatrix s' ! (r' + n * c) \<and> rank sr \<le> rank r')"
    proof (intro allI impI)
      fix c assume c: "c < m" "c \<noteq> pc"
      show "(\<forall>r<n. newStarMatrix s' ! (r + n * c) = starMatrix s' ! (r + n * c)) \<or>
           (\<exists>r'<n. starMatrix s' ! (r' + n * c) \<and> rank sr \<le> rank r')"
      proof (cases "c = sc")
        case True
        then show ?thesis using star_sr srn unfolding st' by blast
      next
        case False
        from cols_t c(1) False consider
            (same) "\<forall>r<n. newStarMatrix s ! (r + n * c) = starMatrix s ! (r + n * c)"
          | (high) r' where "r' < n" "starMatrix s ! (r' + n * c)" "K \<le> rank r'"
          by blast
        then show ?thesis
        proof cases
          case same
          have "newStarMatrix s' ! (r + n * c) = starMatrix s' ! (r + n * c)" if "r < n" for r
            using new [OF that c(1)] same that c False unfolding st' by simp
          then show ?thesis by blast
        next
          case high
          then show ?thesis using rank_sr unfolding st' by (meson less_imp_le order_trans)
        qed
      qed
    qed
  qed
  ultimately show "inv4loop n m sr' pc s'"
    unfolding inv4loop_def using pc by simp
  \<comment> \<open>one more row differs from the old stars\<close>
  let ?U = "\<lambda>s. {r. r < n \<and> (\<forall>c<m. newStarMatrix s ! (r + n * c) = starMatrix s ! (r + n * c))}"
  have in_s: "sr \<in> ?U s" using low srn rank_sr by blast
  have out_s': "sr \<notin> ?U s'"
    using new_sr [OF sc] star_sr pc_sc sc unfolding st' by auto
  have "?U s' \<subseteq> ?U s"
  proof
    fix x assume x: "x \<in> ?U s'"
    then have "x \<noteq> sr" using out_s' by blast
    then show "x \<in> ?U s"
      using x new_other [of x] unfolding st' by auto
  qed
  then have "?U s' \<subset> ?U s" using in_s out_s' by blast
  then have "card (?U s') < card (?U s)"
    by (intro psubset_card_mono) simp_all
  then show "untouched n m s' < untouched n m s"
    unfolding untouched_def .
  show "pc < m" "primeMatrix s ! (sr + n * pc)" "sc < m" by fact+
qed

lemma inv4loop_exit:
  assumes inv: "inv4loop n m sr sc s" and srn: "\<not> sr < n"
  shows "inv2a n m (step4_exit n m s)"
    and "card (starred_cols n m (starMatrix s))
         < card (starred_cols n m (starMatrix (step4_exit n m s)))"
    and "starred_cols n m (starMatrix s) \<subseteq> starred_cols n m (newStarMatrix s)"
proof -
  let ?s = "step4_exit n m s"
  from inv obtain pr where
    wf: "wf_state n m s" and cv: "cover_ok n m s"
    and sc: "sc < m"
    and sr_def: "sr = first_index (\<lambda>r. starMatrix s ! (r + n * sc)) n"
    and nrows: "rows_le1 n m (newStarMatrix s)"
    and ncols: "\<forall>c<m. c \<noteq> sc \<longrightarrow> col_le1 n (newStarMatrix s) c"
    and ncur: "\<forall>r<n. \<forall>r'<n. r \<noteq> sr \<longrightarrow> r' \<noteq> sr \<longrightarrow>
        newStarMatrix s ! (r + n * sc) \<longrightarrow> newStarMatrix s ! (r' + n * sc) \<longrightarrow> r = r'"
    and keep: "\<forall>c<m. c \<noteq> sc \<longrightarrow> c \<in> starred_cols n m (starMatrix s) \<longrightarrow>
        c \<in> starred_cols n m (newStarMatrix s)"
    and pr: "pr < n" "newStarMatrix s ! (pr + n * sc)"
    unfolding inv4loop_def by (elim conjE exE) blast
  have "sr = n" using srn first_index_le [of "\<lambda>r. starMatrix s ! (r + n * sc)" n] sr_def by simp
  then have nostar: "\<forall>r<n. \<not> starMatrix s ! (r + n * sc)"
    using sr_def by (simp add: first_index_eq)
  then have sc_old: "sc \<notin> starred_cols n m (starMatrix s)"
    by (simp add: starred_cols_def)
  have sc_new: "sc \<in> starred_cols n m (newStarMatrix s)"
    using pr sc by (auto simp: starred_cols_def)
  have sub: "starred_cols n m (starMatrix s) \<subseteq> starred_cols n m (newStarMatrix s)"
  proof
    fix c assume c: "c \<in> starred_cols n m (starMatrix s)"
    then have "c < m" "c \<noteq> sc" using sc_old by (auto simp: starred_cols_def)
    then show "c \<in> starred_cols n m (newStarMatrix s)" using keep c by blast
  qed
  have fields: "starMatrix ?s = newStarMatrix s" "coveredColumns ?s = coveredColumns s"
    "primeMatrix ?s = replicate (n * m) False" "coveredRows ?s = replicate n False"
    by (simp_all add: step4_exit_def)
  have "wf_state n m ?s" using wf by (simp add: wf_state_def step4_exit_def)
  moreover have "matching n m (starMatrix ?s)"
    unfolding matching_def fields
  proof (intro conjI allI impI)
    show "rows_le1 n m (newStarMatrix s)" by fact
    fix c assume c: "c < m"
    show "col_le1 n (newStarMatrix s) c"
    proof (cases "c = sc")
      case True
      then show ?thesis using ncur \<open>sr = n\<close> unfolding col_le1_def by auto
    next
      case False
      then show ?thesis using ncols c by simp
    qed
  qed
  moreover have "\<forall>i<n * m. \<not> primeMatrix ?s ! i" "\<forall>r<n. \<not> coveredRows ?s ! r"
    unfolding fields by simp_all
  moreover have "\<forall>c<m. coveredColumns ?s ! c \<longrightarrow> c \<in> starred_cols n m (starMatrix ?s)"
    unfolding fields using cv sub unfolding cover_ok_def by blast
  ultimately show "inv2a n m ?s" unfolding inv2a_def by simp
  have "starred_cols n m (starMatrix s) \<subset> starred_cols n m (newStarMatrix s)"
    using sub sc_old sc_new by blast
  moreover have "finite (starred_cols n m (newStarMatrix s))"
    by (simp add: starred_cols_def)
  ultimately show "card (starred_cols n m (starMatrix s)) < card (starred_cols n m (starMatrix ?s))"
    unfolding fields by (rule psubset_card_mono [rotated])
  show "starred_cols n m (starMatrix s) \<subseteq> starred_cols n m (newStarMatrix s)" by fact
qed

subsection \<open>Loops over all cells\<close>

lemma fold_update_at_aux:
  assumes "distinct xs" and "inj_on \<phi> (set xs)" and "\<forall>i\<in>set xs. \<phi> i < length d"
  shows "length (fold (\<lambda>i d. d[\<phi> i := g i (d ! \<phi> i)]) xs d) = length d
       \<and> (\<forall>j\<in>set xs. fold (\<lambda>i d. d[\<phi> i := g i (d ! \<phi> i)]) xs d ! \<phi> j = g j (d ! \<phi> j))
       \<and> (\<forall>k. k \<notin> \<phi> ` set xs \<longrightarrow> fold (\<lambda>i d. d[\<phi> i := g i (d ! \<phi> i)]) xs d ! k = d ! k)"
  using assms
proof (induction xs arbitrary: d)
  case Nil
  then show ?case by simp
next
  case (Cons x xs)
  let ?d = "d[\<phi> x := g x (d ! \<phi> x)]"
  let ?F = "fold (\<lambda>i d. d[\<phi> i := g i (d ! \<phi> i)]) xs ?d"
  have d: "distinct xs" "inj_on \<phi> (set xs)" "\<forall>i\<in>set xs. \<phi> i < length ?d"
    using Cons.prems by simp_all
  have x: "x \<notin> set xs" "\<phi> x \<notin> \<phi> ` set xs" "\<phi> x < length d"
    using Cons.prems by auto
  from Cons.IH [OF d] have
    IH1: "length ?F = length ?d"
    and IH2: "\<And>j. j \<in> set xs \<Longrightarrow> ?F ! \<phi> j = g j (?d ! \<phi> j)"
    and IH3: "\<And>k. k \<notin> \<phi> ` set xs \<Longrightarrow> ?F ! k = ?d ! k"
    by blast+
  have "length ?F = length d" using IH1 by simp
  moreover have "?F ! \<phi> j = g j (d ! \<phi> j)" if "j \<in> set (x # xs)" for j
  proof (cases "j = x")
    case True
    then show ?thesis using IH3 [OF x(2)] x by simp
  next
    case False
    then have j: "j \<in> set xs" using that by simp
    then have "\<phi> j \<noteq> \<phi> x" using x(2) by (metis imageI)
    then show ?thesis using IH2 [OF j] by simp
  qed
  moreover have "?F ! k = d ! k" if "k \<notin> \<phi> ` set (x # xs)" for k
  proof -
    from that have "k \<notin> \<phi> ` set xs" "k \<noteq> \<phi> x" by auto
    then show ?thesis using IH3 by simp
  qed
  ultimately show ?case by simp
qed

lemma fold_update_at:
  assumes "distinct xs" and "inj_on \<phi> (set xs)" and "\<forall>i\<in>set xs. \<phi> i < length d"
  shows "length (fold (\<lambda>i d. d[\<phi> i := g i (d ! \<phi> i)]) xs d) = length d"
    and "j \<in> set xs \<Longrightarrow> fold (\<lambda>i d. d[\<phi> i := g i (d ! \<phi> i)]) xs d ! \<phi> j = g j (d ! \<phi> j)"
    and "k \<notin> \<phi> ` set xs \<Longrightarrow> fold (\<lambda>i d. d[\<phi> i := g i (d ! \<phi> i)]) xs d ! k = d ! k"
  using fold_update_at_aux [OF assms, of g] by blast+

lemma fold_product:
  "fold (\<lambda>a z. fold (\<lambda>b z. f a b z) bs z) as z = fold (\<lambda>(a, b) z. f a b z) (List.product as bs) z"
proof (induction as arbitrary: z)
  case Nil
  then show ?case by simp
next
  case (Cons a as)
  have "fold (\<lambda>(a, b). f a b) (map (Pair a) bs) z = fold (\<lambda>b. f a b) bs z"
    by (simp add: fold_map comp_def)
  then show ?case using Cons by simp
qed

lemma fold_if_const: "(if P then fold f xs z else z) = fold (\<lambda>x z. if P then f x z else z) xs z"
proof (cases P)
  case True
  then show ?thesis by simp
next
  case False
  have "fold (\<lambda>x z. z) xs z = z" by (induction xs) simp_all
  then show ?thesis using False by simp
qed

lemma idx_injD: "r + n * c = r' + n * c' \<Longrightarrow> r < n \<Longrightarrow> r' < n \<Longrightarrow> r = r' \<and> c = (c'::nat)"
  using idx_inj [of r n r' c c'] by simp

lemma inj_on_idx: "inj_on (\<lambda>(r, c). r + n * c) ({..<n::nat} \<times> UNIV)"
proof (rule inj_onI)
  fix x y :: "nat \<times> nat"
  obtain r c r' c' where xy: "x = (r, c)" "y = (r', c')" by (cases x, cases y)
  assume "x \<in> {..<n} \<times> UNIV" "y \<in> {..<n} \<times> UNIV"
    "(case x of (r, c) \<Rightarrow> r + n * c) = (case y of (r, c) \<Rightarrow> r + n * c)"
  then have "r + n * c = r' + n * c'" "r < n" "r' < n" unfolding xy by simp_all
  then have "r = r' \<and> c = c'" by (rule idx_injD)
  then show "x = y" unfolding xy by simp
qed

lemma inj_on_idx': "inj_on (\<lambda>(c, r). r + n * c) (UNIV \<times> {..<n::nat})"
proof (rule inj_onI)
  fix x y :: "nat \<times> nat"
  obtain r c r' c' where xy: "x = (c, r)" "y = (c', r')" by (cases x, cases y)
  assume "x \<in> UNIV \<times> {..<n}" "y \<in> UNIV \<times> {..<n}"
    "(case x of (c, r) \<Rightarrow> r + n * c) = (case y of (c, r) \<Rightarrow> r + n * c)"
  then have "r + n * c = r' + n * c'" "r < n" "r' < n" unfolding xy by simp_all
  then have "r = r' \<and> c = c'" by (rule idx_injD)
  then show "x = y" unfolding xy by simp
qed

text \<open>A row-by-row and a column-by-column sweep that change every cell by itself.\<close>

lemma sweep_rows:
  fixes P :: "nat \<Rightarrow> bool" and g :: "nat \<Rightarrow> nat \<Rightarrow> 'a \<Rightarrow> 'a"
  assumes "length d = n * m"
  defines "d' \<equiv> fold (\<lambda>row d. if P row
                                 then fold (\<lambda>col d. d[row + n * col := g row col (d ! (row + n * col))])
                                           [0..<m] d
                                 else d) [0..<n] d"
  shows "length d' = n * m"
    and "r < n \<Longrightarrow> c < m \<Longrightarrow>
         d' ! (r + n * c) = (if P r then g r c (d ! (r + n * c)) else d ! (r + n * c))"
proof -
  let ?\<phi> = "\<lambda>(r, c). r + n * c"
  let ?g = "\<lambda>(r, c) x. if P r then g r c x else x"
  let ?xs = "List.product [0..<n] [0..<m]"
  have "d' = fold (\<lambda>row d. fold (\<lambda>col d. if P row then d[row + n * col := g row col (d ! (row + n * col))] else d)
                               [0..<m] d) [0..<n] d"
    unfolding d'_def by (simp only: fold_if_const)
  also have "\<dots> = fold (\<lambda>(row, col) d. if P row then d[row + n * col := g row col (d ! (row + n * col))] else d)
                      ?xs d"
    by (rule fold_product)
  also have "(\<lambda>(row, col) d. if P row then d[row + n * col := g row col (d ! (row + n * col))] else d)
             = (\<lambda>i d. d[?\<phi> i := ?g i (d ! ?\<phi> i)])"
    by (auto simp: fun_eq_iff)
  finally have d': "d' = fold (\<lambda>i d. d[?\<phi> i := ?g i (d ! ?\<phi> i)]) ?xs d" .
  have dist: "distinct ?xs" by (simp add: distinct_product)
  have inj: "inj_on ?\<phi> (set ?xs)"
    by (rule inj_on_subset [OF inj_on_idx]) auto
  have bound: "\<forall>i\<in>set ?xs. ?\<phi> i < length d"
    using assms(1) by (auto simp: idx_lt)
  show "length d' = n * m"
    unfolding d' using fold_update_at(1) [OF dist inj bound] assms(1) by simp
  show "d' ! (r + n * c) = (if P r then g r c (d ! (r + n * c)) else d ! (r + n * c))"
    if "r < n" "c < m"
  proof -
    have "(r, c) \<in> set ?xs" using that by simp
    from fold_update_at(2) [OF dist inj bound this, of ?g]
    show ?thesis unfolding d' by simp
  qed
qed

lemma sweep_cols:
  fixes P :: "nat \<Rightarrow> bool" and g :: "nat \<Rightarrow> nat \<Rightarrow> 'a \<Rightarrow> 'a"
  assumes "length d = n * m"
  defines "d' \<equiv> fold (\<lambda>col d. if P col
                                 then fold (\<lambda>row d. d[row + n * col := g row col (d ! (row + n * col))])
                                           [0..<n] d
                                 else d) [0..<m] d"
  shows "length d' = n * m"
    and "r < n \<Longrightarrow> c < m \<Longrightarrow>
         d' ! (r + n * c) = (if P c then g r c (d ! (r + n * c)) else d ! (r + n * c))"
proof -
  let ?\<phi> = "\<lambda>(c, r). r + n * c"
  let ?g = "\<lambda>(c, r) x. if P c then g r c x else x"
  let ?xs = "List.product [0..<m] [0..<n]"
  have "d' = fold (\<lambda>col d. fold (\<lambda>row d. if P col then d[row + n * col := g row col (d ! (row + n * col))] else d)
                               [0..<n] d) [0..<m] d"
    unfolding d'_def by (simp only: fold_if_const)
  also have "\<dots> = fold (\<lambda>(col, row) d. if P col then d[row + n * col := g row col (d ! (row + n * col))] else d)
                      ?xs d"
    by (rule fold_product)
  also have "(\<lambda>(col, row) d. if P col then d[row + n * col := g row col (d ! (row + n * col))] else d)
             = (\<lambda>i d. d[?\<phi> i := ?g i (d ! ?\<phi> i)])"
    by (auto simp: fun_eq_iff)
  finally have d': "d' = fold (\<lambda>i d. d[?\<phi> i := ?g i (d ! ?\<phi> i)]) ?xs d" .
  have dist: "distinct ?xs" by (simp add: distinct_product)
  have inj: "inj_on ?\<phi> (set ?xs)"
    by (rule inj_on_subset [OF inj_on_idx']) auto
  have bound: "\<forall>i\<in>set ?xs. ?\<phi> i < length d"
    using assms(1) by (auto simp: idx_lt)
  show "length d' = n * m"
    unfolding d' using fold_update_at(1) [OF dist inj bound] assms(1) by simp
  show "d' ! (r + n * c) = (if P c then g r c (d ! (r + n * c)) else d ! (r + n * c))"
    if "r < n" "c < m"
  proof -
    have "(c, r) \<in> set ?xs" using that by simp
    from fold_update_at(2) [OF dist inj bound this, of ?g]
    show ?thesis unfolding d' by simp
  qed
qed

subsection \<open>Step 5\<close>

lemma fold_min_generic:
  fixes f :: "'i \<Rightarrow> real \<Rightarrow> real"
  assumes "\<And>i h. i \<in> set xs \<Longrightarrow> f i h \<le> h"
    and "\<And>i h a. i \<in> set xs \<Longrightarrow> a \<in> S i \<Longrightarrow> f i h \<le> G a"
    and "\<And>i h. i \<in> set xs \<Longrightarrow> f i h = h \<or> (\<exists>a\<in>S i. f i h = G a)"
  shows "fold f xs h0 \<le> h0
       \<and> (\<forall>i\<in>set xs. \<forall>a\<in>S i. fold f xs h0 \<le> G a)
       \<and> (fold f xs h0 = h0 \<or> (\<exists>i\<in>set xs. \<exists>a\<in>S i. fold f xs h0 = G a))"
  using assms
proof (induction xs arbitrary: h0)
  case Nil
  then show ?case by simp
next
  case (Cons x xs)
  have IH: "fold f xs (f x h0) \<le> f x h0
       \<and> (\<forall>i\<in>set xs. \<forall>a\<in>S i. fold f xs (f x h0) \<le> G a)
       \<and> (fold f xs (f x h0) = f x h0 \<or> (\<exists>i\<in>set xs. \<exists>a\<in>S i. fold f xs (f x h0) = G a))"
    by (rule Cons.IH) (use Cons.prems in auto)
  have x1: "f x h0 \<le> h0" and x2: "\<And>a. a \<in> S x \<Longrightarrow> f x h0 \<le> G a"
    and x3: "f x h0 = h0 \<or> (\<exists>a\<in>S x. f x h0 = G a)"
    using Cons.prems by simp_all
  have "fold f (x # xs) h0 \<le> h0" using IH x1 by simp
  moreover have "\<forall>i\<in>set (x # xs). \<forall>a\<in>S i. fold f (x # xs) h0 \<le> G a"
    using IH x2 by (auto intro: order_trans)
  moreover have "fold f (x # xs) h0 = h0 \<or> (\<exists>i\<in>set (x # xs). \<exists>a\<in>S i. fold f (x # xs) h0 = G a)"
    using IH x3 by auto
  ultimately show ?case by blast
qed

lemma step5_h_props:
  shows "step5_h n m s \<le> DBL_MAX"
    and "(r, c) \<in> unc_cells n m s \<Longrightarrow> step5_h n m s \<le> distMatrix s ! (r + n * c)"
    and "step5_h n m s = DBL_MAX \<or>
         (\<exists>(r, c)\<in>unc_cells n m s. step5_h n m s = distMatrix s ! (r + n * c))"
proof -
  let ?G = "\<lambda>(r, c). distMatrix s ! (r + n * c)"
  let ?inner = "\<lambda>row h. fold (\<lambda>col h.
                          if \<not> coveredColumns s ! col
                          then (let v = distMatrix s ! (row + n * col) in if v < h then v else h)
                          else h) [0..<m] h"
  let ?Sc = "\<lambda>row col. if \<not> coveredColumns s ! col then {(row, col)} else {}"
  let ?f = "\<lambda>row h. if \<not> coveredRows s ! row then ?inner row h else h"
  let ?S = "\<lambda>row. if \<not> coveredRows s ! row then {(row, c) |c. c < m \<and> \<not> coveredColumns s ! c} else {}"
  have inner: "?inner row h \<le> h
       \<and> (\<forall>i\<in>set [0..<m]. \<forall>a\<in>?Sc row i. ?inner row h \<le> ?G a)
       \<and> (?inner row h = h \<or> (\<exists>i\<in>set [0..<m]. \<exists>a\<in>?Sc row i. ?inner row h = ?G a))" for row h
    by (rule fold_min_generic) (auto simp: Let_def)
  have f1: "?f row h \<le> h" for row h using inner [of row h] by simp
  have f2: "?f row h \<le> ?G a" if "a \<in> ?S row" for row h a
    using inner [of row h] that by (auto split: if_splits)
  have f3: "?f row h = h \<or> (\<exists>a\<in>?S row. ?f row h = ?G a)" for row h
  proof (cases "coveredRows s ! row")
    case True
    then show ?thesis by simp
  next
    case False
    from inner [of row h] consider "?inner row h = h"
      | i a where "i < m" "a \<in> ?Sc row i" "?inner row h = ?G a"
      by auto
    then show ?thesis
    proof cases
      case 1
      then show ?thesis using False by simp
    next
      case 2
      then have "a \<in> ?S row" using False by (auto split: if_splits)
      then show ?thesis using 2 False by auto
    qed
  qed
  have h: "step5_h n m s = fold ?f [0..<n] DBL_MAX"
    by (simp add: step5_h_def)
  have all: "fold ?f [0..<n] DBL_MAX \<le> DBL_MAX
       \<and> (\<forall>i\<in>set [0..<n]. \<forall>a\<in>?S i. fold ?f [0..<n] DBL_MAX \<le> ?G a)
       \<and> (fold ?f [0..<n] DBL_MAX = DBL_MAX \<or> (\<exists>i\<in>set [0..<n]. \<exists>a\<in>?S i. fold ?f [0..<n] DBL_MAX = ?G a))"
    by (rule fold_min_generic) (use f1 f2 f3 in blast)+
  show "step5_h n m s \<le> DBL_MAX" using all h by simp
  show "step5_h n m s \<le> distMatrix s ! (r + n * c)" if "(r, c) \<in> unc_cells n m s"
  proof -
    have "r \<in> set [0..<n]" "(r, c) \<in> ?S r" using that by (auto simp: unc_cells_def)
    then have "fold ?f [0..<n] DBL_MAX \<le> ?G (r, c)" using all by blast
    then show ?thesis using h by simp
  qed
  show "step5_h n m s = DBL_MAX \<or>
         (\<exists>(r, c)\<in>unc_cells n m s. step5_h n m s = distMatrix s ! (r + n * c))"
  proof -
    from all consider "fold ?f [0..<n] DBL_MAX = DBL_MAX"
      | i a where "i < n" "a \<in> ?S i" "fold ?f [0..<n] DBL_MAX = ?G a"
      by auto
    then show ?thesis
    proof cases
      case 1
      then show ?thesis using h by simp
    next
      case 2
      then have "a \<in> unc_cells n m s" by (auto simp: unc_cells_def split: if_splits)
      then show ?thesis using 2 h by auto
    qed
  qed
qed

lemma step5_fields [simp]:
  "assignment (step5 n m s) = assignment s"
  "starMatrix (step5 n m s) = starMatrix s"
  "newStarMatrix (step5 n m s) = newStarMatrix s"
  "primeMatrix (step5 n m s) = primeMatrix s"
  "coveredRows (step5 n m s) = coveredRows s"
  "coveredColumns (step5 n m s) = coveredColumns s"
  by (simp_all add: step5_def Let_def)

lemma step5_dist:
  assumes "length (distMatrix s) = n * m"
  shows "length (distMatrix (step5 n m s)) = n * m"
    and "r < n \<Longrightarrow> c < m \<Longrightarrow>
         distMatrix (step5 n m s) ! (r + n * c) =
           distMatrix s ! (r + n * c)
           + (if coveredRows s ! r then step5_h n m s else 0)
           - (if \<not> coveredColumns s ! c then step5_h n m s else 0)"
proof -
  let ?h = "step5_h n m s"
  let ?d1 = "fold (\<lambda>row d.
                       if coveredRows s ! row
                       then fold (\<lambda>col d. d[row + n * col := d ! (row + n * col) + ?h])
                                 [0..<m] d
                       else d)
                    [0..<n] (distMatrix s)"
  let ?d2 = "fold (\<lambda>col d.
                       if \<not> coveredColumns s ! col
                       then fold (\<lambda>row d. d[row + n * col := d ! (row + n * col) - ?h])
                                 [0..<n] d
                       else d)
                    [0..<m] ?d1"
  have d: "distMatrix (step5 n m s) = ?d2" by (simp add: step5_def Let_def)
  have l1: "length ?d1 = n * m"
    and c1: "\<And>r c. r < n \<Longrightarrow> c < m \<Longrightarrow>
         ?d1 ! (r + n * c) = (if coveredRows s ! r then distMatrix s ! (r + n * c) + ?h
                              else distMatrix s ! (r + n * c))"
    using sweep_rows [OF assms, where P = "\<lambda>row. coveredRows s ! row" and g = "\<lambda>row col x. x + ?h"]
    by blast+
  have l2: "length ?d2 = n * m"
    and c2: "\<And>r c. r < n \<Longrightarrow> c < m \<Longrightarrow>
         ?d2 ! (r + n * c) = (if \<not> coveredColumns s ! c then ?d1 ! (r + n * c) - ?h
                              else ?d1 ! (r + n * c))"
    using sweep_cols [OF l1, where P = "\<lambda>col. \<not> coveredColumns s ! col" and g = "\<lambda>row col x. x - ?h"]
    by blast+
  show "length (distMatrix (step5 n m s)) = n * m" using l2 d by simp
  show "distMatrix (step5 n m s) ! (r + n * c) =
           distMatrix s ! (r + n * c)
           + (if coveredRows s ! r then step5_h n m s else 0)
           - (if \<not> coveredColumns s ! c then step5_h n m s else 0)" if "r < n" "c < m"
    unfolding d using c2 [OF that] c1 [OF that] by simp
qed

lemma inv3_step5: "inv3 n m md s \<Longrightarrow> inv3 n m md (step5 n m s)"
  unfolding inv3_def wf_state_def cover_ok_def prime_ok_def ranked_def
  by (simp add: step5_dist(1))

subsection \<open>Every call makes progress\<close>

lemma DBL_MAX_pos: "0 < DBL_MAX"
  by (simp add: DBL_MAX_def)

lemma is_zero_0 [simp]: "is_zero 0"
  by (simp add: is_zero_def DBL_EPSILON_def)

lemma finite_unc_cells [simp]: "finite (unc_cells n m s)"
proof -
  have "unc_cells n m s \<subseteq> {..<n} \<times> {..<m}" by (auto simp: unc_cells_def)
  then show ?thesis by (rule finite_subset) simp
qed

lemma inv3_uncovered:
  assumes i3: "inv3 n m md s" and md: "md \<le> n" "md \<le> m"
  shows "unc_cells n m s \<noteq> {}"
proof -
  from i3 have mt: "matching n m (starMatrix s)" and cv: "cover_ok n m s"
    and cd: "card (starred_cols n m (starMatrix s)) < md"
    unfolding inv3_def by blast+
  have "\<exists>c<m. \<not> coveredColumns s ! c"
  proof (rule ccontr)
    assume "\<not> ?thesis"
    then have "starred_cols n m (starMatrix s) = {..<m}"
      using cv unfolding cover_ok_def by (auto simp: starred_cols_def)
    then show False using cd md by simp
  qed
  moreover have "\<exists>r<n. \<not> coveredRows s ! r"
  proof (rule ccontr)
    assume "\<not> ?thesis"
    then have "\<forall>r<n. \<exists>c<m. starMatrix s ! (r + n * c)"
      using cv unfolding cover_ok_def by blast
    then obtain f where f: "\<And>r. r < n \<Longrightarrow> f r < m \<and> starMatrix s ! (r + n * f r)"
      by metis
    have "inj_on f {..<n}"
    proof (rule inj_onI)
      fix r r' assume "r \<in> {..<n}" "r' \<in> {..<n}" "f r = f r'"
      then show "r = r'"
        using f [of r] f [of r'] mt unfolding matching_def col_le1_def by (metis lessThan_iff)
    qed
    then have "card (f ` {..<n}) = n" by (simp add: card_image)
    moreover have "f ` {..<n} \<subseteq> starred_cols n m (starMatrix s)"
      using f by (auto simp: starred_cols_def)
    then have "card (f ` {..<n}) \<le> card (starred_cols n m (starMatrix s))"
      by (intro card_mono) (simp_all add: starred_cols_def)
    ultimately show False using cd md by simp
  qed
  ultimately show ?thesis by (auto simp: unc_cells_def)
qed

lemma unc_cells_step5 [simp]: "unc_cells n m (step5 n m s) = unc_cells n m s"
  by (simp add: unc_cells_def)

lemma step5_progress:
  assumes i3: "inv3 n m md s" and md: "md \<le> n" "md \<le> m"
  shows "zero_unc n m (step5 n m s) \<or> sweeps_left n m (step5 n m s) < sweeps_left n m s"
proof -
  let ?U = "unc_cells n m s"
  let ?h = "step5_h n m s"
  let ?f = "\<lambda>(r, c). distMatrix s ! (r + n * c)"
  have ne: "?U \<noteq> {}" using inv3_uncovered [OF assms] .
  have len: "length (distMatrix s) = n * m" using i3 by (simp add: inv3_def wf_state_def)
  have cell: "distMatrix (step5 n m s) ! (r + n * c) = distMatrix s ! (r + n * c) - ?h"
    if "(r, c) \<in> ?U" for r c
    using that step5_dist(2) [OF len, of r c] by (simp add: unc_cells_def)
  from step5_h_props(3) [of n m s] show ?thesis
  proof
    assume "\<exists>(r, c)\<in>?U. ?h = distMatrix s ! (r + n * c)"
    then obtain r c where rc: "(r, c) \<in> ?U" "?h = distMatrix s ! (r + n * c)" by auto
    then have "distMatrix (step5 n m s) ! (r + n * c) = 0" using cell by simp
    then have "zero_unc n m (step5 n m s)"
      unfolding zero_unc_def using rc(1) by force
    then show ?thesis ..
  next
    assume h: "?h = DBL_MAX"
    have img: "(\<lambda>(r, c). distMatrix (step5 n m s) ! (r + n * c)) ` ?U = (\<lambda>x. x - DBL_MAX) ` ?f ` ?U"
      using cell h by (force simp: image_iff)
    have "mono (\<lambda>x::real. x - DBL_MAX)" by (simp add: mono_def)
    moreover have "finite (?f ` ?U)" "?f ` ?U \<noteq> {}" using ne by simp_all
    ultimately have "Min ((\<lambda>x. x - DBL_MAX) ` ?f ` ?U) = Min (?f ` ?U) - DBL_MAX"
      by (rule mono_Min_commute [symmetric])
    then have shift: "min_unc n m (step5 n m s) = min_unc n m s - DBL_MAX"
      unfolding min_unc_def unc_cells_step5 img .
    have "Min (?f ` ?U) \<in> ?f ` ?U" using ne by (intro Min_in) simp_all
    then obtain r c where rc: "(r, c) \<in> ?U" "min_unc n m s = distMatrix s ! (r + n * c)"
      unfolding min_unc_def by auto
    have ge: "DBL_MAX \<le> min_unc n m s"
      using step5_h_props(2) [OF rc(1)] rc(2) h by simp
    have "(min_unc n m s - DBL_MAX) / DBL_MAX = min_unc n m s / DBL_MAX - 1"
      using DBL_MAX_pos by (simp add: field_simps)
    then have fl: "\<lfloor>(min_unc n m s - DBL_MAX) / DBL_MAX\<rfloor> = \<lfloor>min_unc n m s / DBL_MAX\<rfloor> - 1"
      by simp
    have "1 \<le> min_unc n m s / DBL_MAX" using ge DBL_MAX_pos by (simp add: field_simps)
    then have "1 \<le> \<lfloor>min_unc n m s / DBL_MAX\<rfloor>" by simp
    then have "sweeps_left n m (step5 n m s) < sweeps_left n m s"
      unfolding sweeps_left_def shift fl by simp
    then show ?thesis ..
  qed
qed

lemma step_orderI:
  assumes "card (starred_cols n m (starMatrix s)) \<le> card (starred_cols n m (starMatrix s'))"
    and "card (starred_cols n m (starMatrix s)) < card (starred_cols n m (starMatrix s'))
         \<or> phase c' < phase c
         \<or> (phase c' = phase c \<and>
             (progress n m (c', s') < progress n m (c, s)
              \<or> (progress n m (c', s') = progress n m (c, s)
                  \<and> pending n m (c', s') < pending n m (c, s))))"
  shows "((c', s'), (c, s)) \<in> step_order n m"
proof -
  have "card (starred_cols n m (starMatrix s')) \<le> m" by (rule starred_cols_le_m)
  then show ?thesis
    using assms unfolding step_order_def by auto
qed

lemma wf_step_order: "wf (step_order n m)"
  unfolding step_order_def by (rule wf_measures)

lemma buildassignmentvector_length [simp]:
  "length (buildassignmentvector asg st n m) = length asg"
proof -
  have "length (fold (\<lambda>row a. case find (\<lambda>col. st ! (row + n * col)) [0..<m] of
                                  None \<Rightarrow> a | Some col \<Rightarrow> a[row := int col]) rows asg) = length asg"
    for rows
    by (induction rows arbitrary: asg) (simp_all split: option.splits)
  then show ?thesis by (simp add: buildassignmentvector_def)
qed

lemma step_inv:
  assumes "inv n m (min n m) cs"
  shows "case step n m (min n m) cs of
           Inl r \<Rightarrow> \<exists>s0. cs = (Step2b, s0) \<and> finished n m (min n m) (projr r) \<and> \<not> isl r
         | Inr cs' \<Rightarrow> inv n m (min n m) cs' \<and> (cs', cs) \<in> step_order n m"
proof -
  obtain c s where cs: "cs = (c, s)" by (cases cs)
  show ?thesis
  proof (cases c)
    case Step2a
    then have "inv2b n m (step2a n m s)" using assms cs by (simp add: inv2a_step2a)
    moreover have "((Step2b, step2a n m s), (Step2a, s)) \<in> step_order n m"
      by (rule step_orderI) (simp_all add: phase_def)
    ultimately show ?thesis using Step2a cs by (simp add: step_def)
  next
    case Step2b
    then have i2: "inv2b n m s" using assms cs by simp
    then have wf: "wf_state n m s" and mt: "matching n m (starMatrix s)"
      by (simp_all add: inv2b_def inv2a_def)
    have cnt: "nOfCoveredColumns m s = card (starred_cols n m (starMatrix s))"
      using i2 by (rule inv2b_count)
    show ?thesis
    proof (cases "nOfCoveredColumns m s = min n m")
      case True
      have "finished n m (min n m)
              (s\<lparr>assignment := buildassignmentvector (assignment s) (starMatrix s) n m\<rparr>)"
        using wf mt True cnt by (simp add: finished_def wf_state_def)
      then show ?thesis using True Step2b cs by (simp add: step_def)
    next
      case False
      then have "inv3 n m (min n m) s" using i2 cnt by (intro inv2b_inv3) simp_all
      moreover have "((Step3, s), (Step2b, s)) \<in> step_order n m"
        by (rule step_orderI) (simp_all add: phase_def)
      ultimately show ?thesis using False Step2b cs by (simp add: step_def)
    qed
  next
    case Step3
    then have i3: "inv3 n m (min n m) s" using assms cs by simp
    have post: "step3_post n m (min n m) [0..<m] False s (step3_cols n m [0..<m] False s)"
      using i3 by (rule step3_cols_post) auto
    show ?thesis
    proof (cases "step3_cols n m [0..<m] False s")
      case (Inl a)
      obtain row col s' where a: "a = (row, col, s')" by (cases a)
      have "inv4 n m row col s'" "starMatrix s' = starMatrix s"
        using post Inl a by (simp_all add: step3_post_def)
      moreover have "card (starred_cols n m (starMatrix s)) < min n m"
        using i3 by (simp add: inv3_def)
      moreover have "((Step4 row col, s'), (Step3, s)) \<in> step_order n m"
        using \<open>starMatrix s' = starMatrix s\<close> by (intro step_orderI) (simp_all add: phase_def)
      ultimately show ?thesis using Inl a Step3 cs by (simp add: step_def)
    next
      case (Inr b)
      obtain zf s' where b: "b = (zf, s')" by (cases b)
      have p: "inv3 n m (min n m) s'" "starMatrix s' = starMatrix s"
        "unc_rows n s' \<le> unc_rows n s" "zf \<longrightarrow> unc_rows n s' < unc_rows n s"
        "\<not> zf \<longrightarrow> s' = s \<and>
             (\<forall>c\<in>set [0..<m]. \<forall>r<n. \<not> coveredColumns s ! c \<longrightarrow> \<not> coveredRows s ! r \<longrightarrow>
                \<not> is_zero (distMatrix s ! (r + n * c)))"
        using post Inr b by (simp_all add: step3_post_def)
      show ?thesis
      proof (cases zf)
        case True
        have "((Step3, s'), (Step3, s)) \<in> step_order n m"
          using p True by (intro step_orderI) (simp_all add: phase_def progress_def)
        then show ?thesis using True Inr b Step3 cs p by (simp add: step_def)
      next
        case False
        then have s': "s' = s" and "\<not> zero_unc n m s"
          using p(5) by (auto simp: zero_unc_def unc_cells_def)
        then have "((Step5, s'), (Step3, s)) \<in> step_order n m"
          by (intro step_orderI) (simp_all add: phase_def progress_def pending_def)
        then show ?thesis using False Inr b Step3 cs p by (simp add: step_def)
      qed
    qed
  next
    case (Step4 row col)
    then have i4: "inv4 n m row col s" and cd: "card (starred_cols n m (starMatrix s)) < min n m"
      using assms cs by simp_all
    let ?sr = "first_index (\<lambda>r. starMatrix s ! (r + n * col)) n"
    let ?s' = "s\<lparr>newStarMatrix := (starMatrix s)[row + n * col := True]\<rparr>"
    have st: "step4_init n m row col s = (Step4Loop ?sr col, ?s')"
      by (simp add: step4_init_def Let_def)
    have "inv4loop n m ?sr col ?s'" using i4 by (rule inv4_init)
    moreover have "((Step4Loop ?sr col, ?s'), (Step4 row col, s)) \<in> step_order n m"
      by (rule step_orderI) (simp_all add: phase_def)
    ultimately show ?thesis using Step4 cs cd st by (simp add: step_def)
  next
    case (Step4Loop sr sc)
    then have il: "inv4loop n m sr sc s" and cd: "card (starred_cols n m (starMatrix s)) < min n m"
      using assms cs by simp_all
    show ?thesis
    proof (cases "sr < n")
      case True
      let ?pc = "first_index (\<lambda>c. primeMatrix s ! (sr + n * c)) m"
      let ?s' = "s\<lparr>newStarMatrix := (newStarMatrix s)[sr + n * sc := False, sr + n * ?pc := True]\<rparr>"
      let ?sr' = "first_index (\<lambda>r. starMatrix s ! (r + n * ?pc)) n"
      note b = inv4loop_body [OF il True]
      have "((Step4Loop ?sr' ?pc, ?s'), (Step4Loop sr sc, s)) \<in> step_order n m"
        using b(3) by (intro step_orderI) (simp_all add: phase_def progress_def)
      then show ?thesis using True Step4Loop cs cd b(1,2) by (simp add: step_def)
    next
      case False
      note e = inv4loop_exit [OF il False]
      have "((Step2a, step4_exit n m s), (Step4Loop sr sc, s)) \<in> step_order n m"
        using e(2) by (intro step_orderI) simp_all
      then show ?thesis using False Step4Loop cs e(1) by (simp add: step_def)
    qed
  next
    case Step5
    then have i3: "inv3 n m (min n m) s" using assms cs by simp
    have "inv3 n m (min n m) (step5 n m s)" using i3 by (rule inv3_step5)
    moreover have "((Step3, step5 n m s), (Step5, s)) \<in> step_order n m"
      using step5_progress [OF i3]
      by (intro step_orderI) (auto simp: phase_def progress_def pending_def unc_rows_def)
    ultimately show ?thesis using Step5 cs by (simp add: step_def)
  qed
qed

text \<open>
  Total correctness of the state machine: from every call whose state satisfies the
  invariant the algorithm ends, in \<open>step2b\<close>.  A further property \<open>I\<close> that every call
  hands on to the next one holds at the end as well.
\<close>

lemma run_total:
  assumes "inv n m (min n m) cs" and "I cs"
    and "\<And>cs cs'. inv n m (min n m) cs \<Longrightarrow> I cs \<Longrightarrow> step n m (min n m) cs = Inr cs' \<Longrightarrow> I cs'"
  shows "\<exists>s0 s. run n m (min n m) cs = Some (Inr s) \<and> finished n m (min n m) s \<and>
           inv n m (min n m) (Step2b, s0) \<and> I (Step2b, s0) \<and>
           step n m (min n m) (Step2b, s0) = Inl (Inr s)"
  using assms(1,2)
proof (induction cs rule: wf_induct_rule [OF wf_step_order [of n m]])
  case (1 cs)
  note si = step_inv [OF "1.prems"(1)]
  show ?case
  proof (cases "step n m (min n m) cs")
    case (Inl r)
    then obtain s0 where "cs = (Step2b, s0)" "finished n m (min n m) (projr r)" "\<not> isl r"
      using si by auto
    moreover from \<open>\<not> isl r\<close> obtain s where "r = Inr s" by (cases r) simp_all
    ultimately show ?thesis
      using Inl "1.prems" by (subst run.simps) auto
  next
    case (Inr cs')
    then have "inv n m (min n m) cs'" "(cs', cs) \<in> step_order n m" using si by simp_all
    moreover have "I cs'" using assms(3) [OF "1.prems" Inr] .
    ultimately obtain s0 s where "run n m (min n m) cs' = Some (Inr s)"
      "finished n m (min n m) s" "inv n m (min n m) (Step2b, s0)" "I (Step2b, s0)"
      "step n m (min n m) (Step2b, s0) = Inl (Inr s)"
      using "1.IH" by blast
    then show ?thesis
      using Inr by (subst run.simps) auto
  qed
qed

subsection \<open>The preliminary steps\<close>

lemma fold_upt_induct:
  assumes "P 0 s" and "\<And>k s. k < n \<Longrightarrow> P k s \<Longrightarrow> P (Suc k) (f k s)"
  shows "P n (fold f [0..<n] s)"
  using assms(2)
proof (induction n)
  case 0
  then show ?case using assms(1) by simp
next
  case (Suc n)
  have "P n (fold f [0..<n] s)" by (rule Suc.IH) (simp add: Suc.prems)
  then show ?case using Suc.prems [of n] by simp
qed

lemma fold_list_update_length [simp]:
  "length (fold (\<lambda>i d. d[\<phi> i := G i d]) xs d) = length d"
  by (induction xs arbitrary: d) simp_all

lemma reduce_rows_ok:
  "\<forall>row\<in>set rows. row < length d \<Longrightarrow>
   \<exists>d'. reduce_rows n m rows d = Inr d' \<and> length d' = length d"
proof (induction rows arbitrary: d)
  case Nil
  then show ?case by simp
next
  case (Cons row rows)
  let ?mv = "fold (\<lambda>col mv. let v = d ! (row + n * col) in if v < mv then v else mv) [1..<m] (d ! row)"
  let ?d = "fold (\<lambda>col d. d[row + n * col := d ! (row + n * col) - ?mv]) [0..<m] d"
  have len: "length ?d = length d" by (rule fold_list_update_length)
  then have "\<forall>row\<in>set rows. row < length ?d" using Cons.prems by simp
  from Cons.IH [OF this] obtain d' where "reduce_rows n m rows ?d = Inr d'" "length d' = length ?d"
    by blast
  then show ?case using Cons.prems len by (simp add: Let_def)
qed

lemma reduce_cols_ok:
  "\<forall>col\<in>set cols. n * col < length d \<Longrightarrow>
   \<exists>d'. reduce_cols n m cols d = Inr d' \<and> length d' = length d"
proof (induction cols arbitrary: d)
  case Nil
  then show ?case by simp
next
  case (Cons col cols)
  let ?mv = "fold (\<lambda>row mv. let v = d ! (row + n * col) in if v < mv then v else mv) [1..<n] (d ! (n * col))"
  let ?d = "fold (\<lambda>row d. d[row + n * col := d ! (row + n * col) - ?mv]) [0..<n] d"
  have len: "length ?d = length d" by (rule fold_list_update_length)
  then have "\<forall>col\<in>set cols. n * col < length ?d" using Cons.prems by simp
  from Cons.IH [OF this] obtain d' where "reduce_cols n m cols ?d = Inr d'" "length d' = length ?d"
    by blast
  then show ?case using Cons.prems len by (simp add: Let_def)
qed

lemma star_cell:
  assumes "wf_state n m s" "row < n" "col < m" "r < n" "c < m"
  shows "(starMatrix s)[row + n * col := True] ! (r + n * c)
         \<longleftrightarrow> (r = row \<and> c = col) \<or> starMatrix s ! (r + n * c)"
  using assms by (auto simp: nth_update_idx wf_state_def)

lemma star_rows_step:
  assumes ok: "wf_state n m s" "matching n m (starMatrix s)"
      "\<forall>c<m. coveredColumns s ! c \<longleftrightarrow> c \<in> starred_cols n m (starMatrix s)"
    and below: "\<forall>r<n. \<forall>c<m. starMatrix s ! (r + n * c) \<longrightarrow> r < k"
    and k: "k < n" and col: "col < m" "\<not> coveredColumns s ! col"
  defines "s' \<equiv> s\<lparr>starMatrix := (starMatrix s)[k + n * col := True],
                    coveredColumns := (coveredColumns s)[col := True]\<rparr>"
  shows "wf_state n m s'" "matching n m (starMatrix s')"
    "\<forall>c<m. coveredColumns s' ! c \<longleftrightarrow> c \<in> starred_cols n m (starMatrix s')"
    "\<forall>r<n. \<forall>c<m. starMatrix s' ! (r + n * c) \<longrightarrow> r < Suc k"
proof -
  have st: "starMatrix s' ! (r + n * c) \<longleftrightarrow> (r = k \<and> c = col) \<or> starMatrix s ! (r + n * c)"
    if "r < n" "c < m" for r c
    unfolding s'_def using star_cell [OF ok(1) k col(1) that] by simp
  have cc: "coveredColumns s' ! c \<longleftrightarrow> c = col \<or> coveredColumns s ! c" if "c < m" for c
    unfolding s'_def using that ok(1) col(1) by (auto simp: wf_state_def nth_list_update)
  have nocol: "\<not> starMatrix s ! (r + n * col)" if "r < n" for r
    using ok(3) col that by (auto simp: starred_cols_def)
  have norow: "\<not> starMatrix s ! (k + n * c)" if "c < m" for c
    using below k that by auto
  show "wf_state n m s'" using ok(1) unfolding s'_def by (simp add: wf_state_def)
  show "matching n m (starMatrix s')"
    unfolding matching_def rows_le1_def col_le1_def
  proof (intro conjI allI impI)
    fix r c c' assume "r < n" "c < m" "c' < m" "starMatrix s' ! (r + n * c)" "starMatrix s' ! (r + n * c')"
    then show "c = c'"
      using st norow ok(2) unfolding matching_def rows_le1_def by (metis (full_types))
  next
    fix c r r' assume "c < m" "r < n" "r' < n" "starMatrix s' ! (r + n * c)" "starMatrix s' ! (r' + n * c)"
    then show "r = r'"
      using st nocol ok(2) unfolding matching_def col_le1_def by (metis (full_types))
  qed
  show "\<forall>c<m. coveredColumns s' ! c \<longleftrightarrow> c \<in> starred_cols n m (starMatrix s')"
  proof (intro allI impI)
    fix c assume c: "c < m"
    have "c \<in> starred_cols n m (starMatrix s') \<longleftrightarrow> c = col \<or> c \<in> starred_cols n m (starMatrix s)"
      using c st k unfolding starred_cols_def by auto
    then show "coveredColumns s' ! c \<longleftrightarrow> c \<in> starred_cols n m (starMatrix s')"
      using cc [OF c] ok(3) c by simp
  qed
  show "\<forall>r<n. \<forall>c<m. starMatrix s' ! (r + n * c) \<longrightarrow> r < Suc k"
    using st below by (auto simp: less_Suc_eq)
qed

lemma star_cols_step:
  assumes ok: "wf_state n m s" "matching n m (starMatrix s)"
      "\<forall>c<m. coveredColumns s ! c \<longleftrightarrow> c \<in> starred_cols n m (starMatrix s)"
      "\<forall>r<n. coveredRows s ! r \<longleftrightarrow> (\<exists>c<m. starMatrix s ! (r + n * c))"
    and below: "\<forall>r<n. \<forall>c<m. starMatrix s ! (r + n * c) \<longrightarrow> c < k"
    and k: "k < m" and row: "row < n" "\<not> coveredRows s ! row"
  defines "s' \<equiv> s\<lparr>starMatrix := (starMatrix s)[row + n * k := True],
                    coveredColumns := (coveredColumns s)[k := True],
                    coveredRows := (coveredRows s)[row := True]\<rparr>"
  shows "wf_state n m s'" "matching n m (starMatrix s')"
    "\<forall>c<m. coveredColumns s' ! c \<longleftrightarrow> c \<in> starred_cols n m (starMatrix s')"
    "\<forall>r<n. coveredRows s' ! r \<longleftrightarrow> (\<exists>c<m. starMatrix s' ! (r + n * c))"
    "\<forall>r<n. \<forall>c<m. starMatrix s' ! (r + n * c) \<longrightarrow> c < Suc k"
proof -
  have st: "starMatrix s' ! (r + n * c) \<longleftrightarrow> (r = row \<and> c = k) \<or> starMatrix s ! (r + n * c)"
    if "r < n" "c < m" for r c
    unfolding s'_def using star_cell [OF ok(1) row(1) k that] by simp
  have cc: "coveredColumns s' ! c \<longleftrightarrow> c = k \<or> coveredColumns s ! c" if "c < m" for c
    unfolding s'_def using that ok(1) k by (auto simp: wf_state_def nth_list_update)
  have rc: "coveredRows s' ! r \<longleftrightarrow> r = row \<or> coveredRows s ! r" if "r < n" for r
    unfolding s'_def using that ok(1) row(1) by (auto simp: wf_state_def nth_list_update)
  have norow: "\<not> starMatrix s ! (row + n * c)" if "c < m" for c
    using ok(4) row that by auto
  have nocol: "\<not> starMatrix s ! (r + n * k)" if "r < n" for r
    using below k that by auto
  show "wf_state n m s'" using ok(1) unfolding s'_def by (simp add: wf_state_def)
  show "matching n m (starMatrix s')"
    unfolding matching_def rows_le1_def col_le1_def
  proof (intro conjI allI impI)
    fix r c c' assume "r < n" "c < m" "c' < m" "starMatrix s' ! (r + n * c)" "starMatrix s' ! (r + n * c')"
    then show "c = c'"
      using st norow ok(2) unfolding matching_def rows_le1_def by (metis (full_types))
  next
    fix c r r' assume "c < m" "r < n" "r' < n" "starMatrix s' ! (r + n * c)" "starMatrix s' ! (r' + n * c)"
    then show "r = r'"
      using st nocol ok(2) unfolding matching_def col_le1_def by (metis (full_types))
  qed
  show "\<forall>c<m. coveredColumns s' ! c \<longleftrightarrow> c \<in> starred_cols n m (starMatrix s')"
  proof (intro allI impI)
    fix c assume c: "c < m"
    have "c \<in> starred_cols n m (starMatrix s') \<longleftrightarrow> c = k \<or> c \<in> starred_cols n m (starMatrix s)"
      using c st row unfolding starred_cols_def by auto
    then show "coveredColumns s' ! c \<longleftrightarrow> c \<in> starred_cols n m (starMatrix s')"
      using cc [OF c] ok(3) c by simp
  qed
  show "\<forall>r<n. coveredRows s' ! r \<longleftrightarrow> (\<exists>c<m. starMatrix s' ! (r + n * c))"
  proof (intro allI impI)
    fix r assume r: "r < n"
    have "(\<exists>c<m. starMatrix s' ! (r + n * c)) \<longleftrightarrow> r = row \<or> (\<exists>c<m. starMatrix s ! (r + n * c))"
      using r st k by auto
    then show "coveredRows s' ! r \<longleftrightarrow> (\<exists>c<m. starMatrix s' ! (r + n * c))"
      using rc [OF r] ok(4) r by simp
  qed
  show "\<forall>r<n. \<forall>c<m. starMatrix s' ! (r + n * c) \<longrightarrow> c < Suc k"
    using st below by (auto simp: less_Suc_eq)
qed

lemma blank_no_star: "blank n m s \<Longrightarrow> r < n \<Longrightarrow> c < m \<Longrightarrow> \<not> starMatrix s ! (r + n * c)"
  unfolding blank_def using idx_lt [of r n c m] by blast

lemma star_rows_inv2b:
  assumes "blank n m s"
  shows "inv2b n m (star_rows n m s)"
    and "distMatrix (star_rows n m s) = distMatrix s"
proof -
  let ?f = "\<lambda>row s.
             case find (\<lambda>col. is_zero (distMatrix s ! (row + n * col)) \<and> \<not> coveredColumns s ! col)
                       [0..<m] of
               None \<Rightarrow> s
             | Some col \<Rightarrow>
                 s\<lparr>starMatrix := (starMatrix s)[row + n * col := True],
                   coveredColumns := (coveredColumns s)[col := True]\<rparr>"
  let ?P = "\<lambda>k s'. wf_state n m s' \<and> matching n m (starMatrix s') \<and>
      (\<forall>c<m. coveredColumns s' ! c \<longleftrightarrow> c \<in> starred_cols n m (starMatrix s')) \<and>
      (\<forall>r<n. \<forall>c<m. starMatrix s' ! (r + n * c) \<longrightarrow> r < k) \<and>
      distMatrix s' = distMatrix s \<and> primeMatrix s' = primeMatrix s \<and> coveredRows s' = coveredRows s"
  have "?P n (fold ?f [0..<n] s)"
  proof (rule fold_upt_induct [where P = ?P and f = ?f])
    have "starred_cols n m (starMatrix s) = {}"
      using blank_no_star [OF assms] by (auto simp: starred_cols_def)
    then show "?P 0 s"
      using assms blank_no_star [OF assms]
      by (auto simp: blank_def matching_def rows_le1_def col_le1_def)
  next
    fix k s' assume k: "k < n" and P: "?P k s'"
    show "?P (Suc k) (?f k s')"
    proof (cases "find (\<lambda>col. is_zero (distMatrix s' ! (k + n * col)) \<and> \<not> coveredColumns s' ! col) [0..<m]")
      case None
      then show ?thesis using P by (auto simp: less_Suc_eq)
    next
      case (Some col)
      then have col: "col < m" "\<not> coveredColumns s' ! col" by (auto simp: find_upt_Some)
      from P have ok: "wf_state n m s'" "matching n m (starMatrix s')"
        "\<forall>c<m. coveredColumns s' ! c \<longleftrightarrow> c \<in> starred_cols n m (starMatrix s')"
        and below: "\<forall>r<n. \<forall>c<m. starMatrix s' ! (r + n * c) \<longrightarrow> r < k" by blast+
      show ?thesis
        using star_rows_step [OF ok below k col] P Some by simp
    qed
  qed
  then have P: "?P n (star_rows n m s)" by (simp add: star_rows_def)
  then show "distMatrix (star_rows n m s) = distMatrix s" by blast
  from P show "inv2b n m (star_rows n m s)"
    using assms unfolding inv2b_def inv2a_def blank_def by simp
qed

lemma star_cols_inv2b:
  assumes "blank n m s"
  shows "inv2b n m (star_cols n m s)"
    and "distMatrix (star_cols n m s) = distMatrix s"
proof -
  let ?f = "\<lambda>col s.
             case find (\<lambda>row. is_zero (distMatrix s ! (row + n * col)) \<and> \<not> coveredRows s ! row)
                       [0..<n] of
               None \<Rightarrow> s
             | Some row \<Rightarrow>
                 s\<lparr>starMatrix := (starMatrix s)[row + n * col := True],
                   coveredColumns := (coveredColumns s)[col := True],
                   coveredRows := (coveredRows s)[row := True]\<rparr>"
  let ?P = "\<lambda>k s'. wf_state n m s' \<and> matching n m (starMatrix s') \<and>
      (\<forall>c<m. coveredColumns s' ! c \<longleftrightarrow> c \<in> starred_cols n m (starMatrix s')) \<and>
      (\<forall>r<n. coveredRows s' ! r \<longleftrightarrow> (\<exists>c<m. starMatrix s' ! (r + n * c))) \<and>
      (\<forall>r<n. \<forall>c<m. starMatrix s' ! (r + n * c) \<longrightarrow> c < k) \<and>
      distMatrix s' = distMatrix s \<and> primeMatrix s' = primeMatrix s"
  define t where "t = fold ?f [0..<m] s"
  have "?P m t"
    unfolding t_def
  proof (rule fold_upt_induct [where P = ?P and f = ?f])
    have "starred_cols n m (starMatrix s) = {}"
      using blank_no_star [OF assms] by (auto simp: starred_cols_def)
    then show "?P 0 s"
      using assms blank_no_star [OF assms]
      by (auto simp: blank_def matching_def rows_le1_def col_le1_def)
  next
    fix k s' assume k: "k < m" and P: "?P k s'"
    show "?P (Suc k) (?f k s')"
    proof (cases "find (\<lambda>row. is_zero (distMatrix s' ! (row + n * k)) \<and> \<not> coveredRows s' ! row) [0..<n]")
      case None
      then show ?thesis using P by (auto simp: less_Suc_eq)
    next
      case (Some row)
      then have row: "row < n" "\<not> coveredRows s' ! row" by (auto simp: find_upt_Some)
      from P have ok: "wf_state n m s'" "matching n m (starMatrix s')"
        "\<forall>c<m. coveredColumns s' ! c \<longleftrightarrow> c \<in> starred_cols n m (starMatrix s')"
        "\<forall>r<n. coveredRows s' ! r \<longleftrightarrow> (\<exists>c<m. starMatrix s' ! (r + n * c))"
        and below: "\<forall>r<n. \<forall>c<m. starMatrix s' ! (r + n * c) \<longrightarrow> c < k" by blast+
      show ?thesis
        using star_cols_step [OF ok below k row] P Some by simp
    qed
  qed
  then have t: "wf_state n m t" "matching n m (starMatrix t)"
    "\<forall>c<m. coveredColumns t ! c \<longleftrightarrow> c \<in> starred_cols n m (starMatrix t)"
    "distMatrix t = distMatrix s" "primeMatrix t = primeMatrix s"
    by blast+
  have sc: "star_cols n m s = t\<lparr>coveredRows := replicate n False\<rparr>"
    unfolding t_def by (simp add: star_cols_def Let_def)
  show "distMatrix (star_cols n m s) = distMatrix s" unfolding sc using t by simp
  have "wf_state n m (t\<lparr>coveredRows := replicate n False\<rparr>)"
    using t(1) by (simp add: wf_state_def)
  then show "inv2b n m (star_cols n m s)"
    unfolding sc using t assms unfolding inv2b_def inv2a_def blank_def by simp
qed

subsection \<open>The assignment vector\<close>

lemma buildassignmentvector_nth:
  assumes "r < n"
  shows "buildassignmentvector (replicate n (- 1)) st n m ! r =
           (case find (\<lambda>col. st ! (r + n * col)) [0..<m] of None \<Rightarrow> - 1 | Some col \<Rightarrow> int col)"
proof -
  let ?g = "\<lambda>row x. case find (\<lambda>col. st ! (row + n * col)) [0..<m] of None \<Rightarrow> x | Some col \<Rightarrow> int col"
  have "(\<lambda>row a. case find (\<lambda>col. st ! (row + n * col)) [0..<m] of
                     None \<Rightarrow> a | Some col \<Rightarrow> a[row := int col])
        = (\<lambda>row a. a[row := ?g row (a ! row)])"
    by (auto simp: fun_eq_iff split: option.splits)
  then have "buildassignmentvector (replicate n (- 1)) st n m =
             fold (\<lambda>row a. a[row := ?g row (a ! row)]) [0..<n] (replicate n (- 1))"
    by (simp add: buildassignmentvector_def)
  also have "\<dots> ! r = ?g r (replicate n (- 1) ! r)"
    using assms fold_update_nth [of n "replicate n (- 1)" r ?g] by simp
  finally show ?thesis using assms by (simp split: option.splits)
qed

lemma assignment_cases:
  assumes "matching n m st" and "r < n"
  defines "a \<equiv> buildassignmentvector (replicate n (- 1)) st n m ! r"
  shows "(a = - 1 \<and> (\<forall>c<m. \<not> st ! (r + n * c)))
       \<or> (0 \<le> a \<and> nat a < m \<and> st ! (r + n * nat a))"
proof (cases "find (\<lambda>col. st ! (r + n * col)) [0..<m]")
  case None
  then have "a = - 1"
    unfolding a_def buildassignmentvector_nth [OF assms(2)] by simp
  moreover have "\<forall>c<m. \<not> st ! (r + n * c)" using None by (simp add: find_upt_None)
  ultimately show ?thesis by simp
next
  case (Some c)
  then have "a = int c"
    unfolding a_def buildassignmentvector_nth [OF assms(2)] by simp
  moreover have "c < m \<and> st ! (r + n * c)" using Some by (simp add: find_upt_Some)
  ultimately show ?thesis by simp
qed

lemma assignment_star:
  assumes "matching n m st" and "r < n" and "c < m"
  shows "buildassignmentvector (replicate n (- 1)) st n m ! r = int c \<longleftrightarrow> st ! (r + n * c)"
proof -
  let ?a = "buildassignmentvector (replicate n (- 1)) st n m ! r"
  have rows: "\<And>c'. c' < m \<Longrightarrow> st ! (r + n * c') \<Longrightarrow> st ! (r + n * c) \<Longrightarrow> c' = c"
    using assms unfolding matching_def rows_le1_def by blast
  from assignment_cases [OF assms(1,2)] show ?thesis
  proof
    assume "?a = - 1 \<and> (\<forall>c<m. \<not> st ! (r + n * c))"
    then show ?thesis using assms(3) by auto
  next
    assume a: "0 \<le> ?a \<and> nat ?a < m \<and> st ! (r + n * nat ?a)"
    show ?thesis
    proof
      assume "?a = int c"
      then show "st ! (r + n * c)" using a by simp
    next
      assume "st ! (r + n * c)"
      then have "nat ?a = c" using rows a by blast
      then have "int (nat ?a) = int c" by simp
      then show "?a = int c" using a by simp
    qed
  qed
qed

lemma matched_rows_card:
  assumes "matching n m st"
  shows "card {r. r < n \<and> 0 \<le> buildassignmentvector (replicate n (- 1)) st n m ! r}
         = card (starred_cols n m st)"
proof -
  let ?a = "buildassignmentvector (replicate n (- 1)) st n m"
  let ?R = "{r. r < n \<and> 0 \<le> ?a ! r}"
  let ?f = "\<lambda>r. nat (?a ! r)"
  have star: "nat (?a ! r) < m \<and> st ! (r + n * nat (?a ! r))" if "r \<in> ?R" for r
    using assignment_cases [OF assms, of r] that by auto
  have "inj_on ?f ?R"
  proof (rule inj_onI)
    fix r r' assume r: "r \<in> ?R" "r' \<in> ?R" and eq: "?f r = ?f r'"
    then show "r = r'"
      using star [OF r(1)] star [OF r(2)] assms unfolding matching_def col_le1_def
      by (metis (mono_tags, lifting) mem_Collect_eq)
  qed
  moreover have "?f ` ?R = starred_cols n m st"
  proof (intro equalityI subsetI)
    fix c assume "c \<in> ?f ` ?R"
    then show "c \<in> starred_cols n m st" using star by (auto simp: starred_cols_def)
  next
    fix c assume "c \<in> starred_cols n m st"
    then obtain r where r: "c < m" "r < n" "st ! (r + n * c)" by (auto simp: starred_cols_def)
    then have "?a ! r = int c" using assignment_star [OF assms r(2,1)] by simp
    then show "c \<in> ?f ` ?R" using r by force
  qed
  ultimately show ?thesis using card_image by metis
qed

lemma fold_sum:
  fixes g :: "nat \<Rightarrow> real"
  shows "fold (\<lambda>i c. if P i then c + g i else c) [0..<n] c0 = c0 + (\<Sum>i<n. if P i then g i else 0)"
  by (induction n) simp_all

lemma computeassignmentcost_sum:
  "computeassignmentcost asg 0 dm n =
     (\<Sum>r<n. if 0 \<le> asg ! r then dm ! (r + n * nat (asg ! r)) else 0)"
  using fold_sum [of "\<lambda>r. 0 \<le> asg ! r" "\<lambda>r. dm ! (r + n * nat (asg ! r))" n 0]
  by (simp add: computeassignmentcost_def Let_def)

subsection \<open>The solver ends\<close>

lemma init_blank:
  assumes "length d = n * m"
  shows "blank n m ((init_state distMatrixIn n m)\<lparr>distMatrix := d\<rparr>)"
  using assms by (simp add: blank_def wf_state_def init_state_def)

lemma prelim_total:
  assumes "n * m \<le> length distMatrixIn"
  shows "\<exists>s1. (if n \<le> m
               then (case reduce_rows n m [0..<n] (distMatrix (init_state distMatrixIn n m)) of
                       Inl e \<Rightarrow> Inl e
                     | Inr d \<Rightarrow> Inr (n, star_rows n m ((init_state distMatrixIn n m)\<lparr>distMatrix := d\<rparr>)))
               else (case reduce_cols n m [0..<m] (distMatrix (init_state distMatrixIn n m)) of
                       Inl e \<Rightarrow> Inl e
                     | Inr d \<Rightarrow> Inr (m, star_cols n m ((init_state distMatrixIn n m)\<lparr>distMatrix := d\<rparr>))))
              = Inr (min n m, s1) \<and> inv2b n m s1"
proof -
  let ?s0 = "init_state distMatrixIn n m"
  have len: "length (distMatrix ?s0) = n * m" using assms by (simp add: init_state_def)
  show ?thesis
  proof (cases "n \<le> m")
    case True
    have "\<forall>row\<in>set [0..<n]. row < length (distMatrix ?s0)"
    proof
      fix row assume "row \<in> set [0..<n]"
      then have "row < n" by simp
      moreover from this True have "0 < m" by simp
      ultimately have "row + n * 0 < n * m" by (intro idx_lt)
      then show "row < length (distMatrix ?s0)" using len by simp
    qed
    from reduce_rows_ok [OF this, of n m] obtain d where
      d: "reduce_rows n m [0..<n] (distMatrix ?s0) = Inr d" "length d = n * m"
      using len by auto
    have "inv2b n m (star_rows n m (?s0\<lparr>distMatrix := d\<rparr>))"
      using init_blank [OF d(2)] by (rule star_rows_inv2b)
    then show ?thesis using True d by simp
  next
    case False
    have "\<forall>col\<in>set [0..<m]. n * col < length (distMatrix ?s0)"
    proof
      fix col assume "col \<in> set [0..<m]"
      then have "col < m" by simp
      moreover have "0 < n" using False by simp
      ultimately have "0 + n * col < n * m" by (intro idx_lt)
      then show "n * col < length (distMatrix ?s0)" using len by simp
    qed
    from reduce_cols_ok [OF this, of m] obtain d where
      d: "reduce_cols n m [0..<m] (distMatrix ?s0) = Inr d" "length d = n * m"
      using len by auto
    have "inv2b n m (star_cols n m (?s0\<lparr>distMatrix := d\<rparr>))"
      using init_blank [OF d(2)] by (rule star_cols_inv2b)
    then show ?thesis using False d by simp
  qed
qed

lemma assignmentoptimal_total:
  assumes "n * m \<le> length distMatrixIn"
  shows "\<exists>s. assignmentoptimal distMatrixIn n m =
               Some (Inr (assignment s, computeassignmentcost (assignment s) 0 distMatrixIn n))
             \<and> finished n m (min n m) s"
proof -
  from prelim_total [OF assms] obtain s1 where
    p: "(if n \<le> m
               then (case reduce_rows n m [0..<n] (distMatrix (init_state distMatrixIn n m)) of
                       Inl e \<Rightarrow> Inl e
                     | Inr d \<Rightarrow> Inr (n, star_rows n m ((init_state distMatrixIn n m)\<lparr>distMatrix := d\<rparr>)))
               else (case reduce_cols n m [0..<m] (distMatrix (init_state distMatrixIn n m)) of
                       Inl e \<Rightarrow> Inl e
                     | Inr d \<Rightarrow> Inr (m, star_cols n m ((init_state distMatrixIn n m)\<lparr>distMatrix := d\<rparr>))))
              = Inr (min n m, s1)" and i: "inv2b n m s1"
    by blast
  have "inv n m (min n m) (Step2b, s1)" using i by simp
  from run_total [OF this, of "\<lambda>_. True"] obtain s where
    "run n m (min n m) (Step2b, s1) = Some (Inr s)" "finished n m (min n m) s"
    by auto
  then show ?thesis
    unfolding assignmentoptimal_def Let_def p by (intro exI [of _ s]) simp
qed

subsection \<open>The entry point\<close>

lemma flat_cells:
  shows "length (flat M) = length M * length (hd M)"
    and "r < length M \<Longrightarrow> c < length (hd M) \<Longrightarrow> flat M ! (r + length M * c) = M ! r ! c"
proof -
  let ?n = "length M" and ?m = "length (hd M)"
  let ?d0 = "replicate (?n * ?m) (0::real)"
  have eq: "flat M = fold (\<lambda>row d. if True
                                 then fold (\<lambda>col d. d[row + ?n * col := (\<lambda>row col x. M ! row ! col) row col (d ! (row + ?n * col))])
                                           [0..<?m] d
                                 else d) [0..<?n] ?d0"
    by (simp add: flat_def Let_def)
  have len: "length ?d0 = ?n * ?m" by simp
  show "length (flat M) = ?n * ?m"
    unfolding eq by (rule sweep_rows(1) [OF len])
  show "flat M ! (r + ?n * c) = M ! r ! c" if "r < ?n" "c < ?m"
    unfolding eq using sweep_rows(2) [OF len that, of "\<lambda>_. True" "\<lambda>row col x. M ! row ! col"] by simp
qed

lemma Solve_unfold:
  assumes "DistMatrix \<noteq> []" and "\<forall>row\<in>set DistMatrix. length (hd DistMatrix) \<le> length row"
  shows "Solve DistMatrix =
           (case assignmentoptimal (flat DistMatrix) (length DistMatrix) (length (hd DistMatrix)) of
              None \<Rightarrow> None
            | Some (Inl e) \<Rightarrow> Some (Inl e)
            | Some (Inr (asg, cost)) \<Rightarrow> Some (Inr (cost, asg)))"
proof -
  obtain row0 rest where M: "DistMatrix = row0 # rest" using assms(1) by (cases DistMatrix) auto
  have "\<not> list_ex (\<lambda>r. length r < length row0) DistMatrix"
    using assms(2) M by (auto simp: list_ex_iff)
  then show ?thesis
    unfolding Solve_def flat_def by (simp add: M Let_def)
qed

text \<open>What \<open>Solve\<close> returns, in terms of the final star matrix.\<close>

lemma Solve_stars:
  assumes "DistMatrix \<noteq> []" and "\<forall>row\<in>set DistMatrix. length (hd DistMatrix) \<le> length row"
  defines "n \<equiv> length DistMatrix" and "m \<equiv> length (hd DistMatrix)"
  shows "\<exists>st. matching n m st \<and> card (starred_cols n m st) = min n m \<and>
           Solve DistMatrix =
             Some (Inr (computeassignmentcost (buildassignmentvector (replicate n (- 1)) st n m) 0
                          (flat DistMatrix) n,
                        buildassignmentvector (replicate n (- 1)) st n m))"
proof -
  have "n * m \<le> length (flat DistMatrix)" unfolding n_def m_def by (simp add: flat_cells(1))
  from assignmentoptimal_total [OF this] obtain s where
    s: "assignmentoptimal (flat DistMatrix) n m =
          Some (Inr (assignment s, computeassignmentcost (assignment s) 0 (flat DistMatrix) n))"
    "finished n m (min n m) s"
    by blast
  have "Solve DistMatrix =
          Some (Inr (computeassignmentcost (assignment s) 0 (flat DistMatrix) n, assignment s))"
    unfolding Solve_unfold [OF assms(1,2)] using s(1) unfolding n_def m_def by simp
  then show ?thesis
    using s(2) unfolding finished_def by (intro exI [of _ "starMatrix s"]) simp
qed

lemma Solve_total:
  assumes "DistMatrix \<noteq> []" and "\<forall>row\<in>set DistMatrix. length (hd DistMatrix) \<le> length row"
  defines "n \<equiv> length DistMatrix" and "m \<equiv> length (hd DistMatrix)"
  shows "\<exists>cost asg.
           Solve DistMatrix = Some (Inr (cost, asg)) \<and> length asg = n \<and>
           (\<forall>i<n. asg ! i = - 1 \<or> (0 \<le> asg ! i \<and> asg ! i < int m)) \<and>
           (\<forall>i<n. \<forall>j<n. 0 \<le> asg ! i \<longrightarrow> asg ! i = asg ! j \<longrightarrow> i = j) \<and>
           card {i. i < n \<and> 0 \<le> asg ! i} = min n m \<and>
           cost = (\<Sum>i<n. if 0 \<le> asg ! i then DistMatrix ! i ! nat (asg ! i) else 0)"
proof -
  from Solve_stars [OF assms(1,2)] obtain st where
    mt: "matching n m st" and cd: "card (starred_cols n m st) = min n m"
    and S: "Solve DistMatrix =
             Some (Inr (computeassignmentcost (buildassignmentvector (replicate n (- 1)) st n m) 0
                          (flat DistMatrix) n,
                        buildassignmentvector (replicate n (- 1)) st n m))"
    unfolding n_def m_def by blast
  let ?a = "buildassignmentvector (replicate n (- 1)) st n m"
  have rng: "?a ! i = - 1 \<or> (0 \<le> ?a ! i \<and> ?a ! i < int m)" if "i < n" for i
    using assignment_cases [OF mt that] by auto
  have inj: "i = j" if "i < n" "j < n" "0 \<le> ?a ! i" "?a ! i = ?a ! j" for i j
  proof -
    have i: "nat (?a ! i) < m" "st ! (i + n * nat (?a ! i))"
      using assignment_cases [OF mt that(1)] that(3) by auto
    have j: "st ! (j + n * nat (?a ! j))"
      using assignment_cases [OF mt that(2)] that(3,4) by auto
    show ?thesis
      using i j that mt unfolding matching_def col_le1_def by metis
  qed
  have cost: "computeassignmentcost ?a 0 (flat DistMatrix) n
              = (\<Sum>i<n. if 0 \<le> ?a ! i then DistMatrix ! i ! nat (?a ! i) else 0)"
    unfolding computeassignmentcost_sum
  proof (rule sum.cong [OF refl])
    fix i assume "i \<in> {..<n}"
    then have i: "i < n" by simp
    show "(if 0 \<le> ?a ! i then flat DistMatrix ! (i + n * nat (?a ! i)) else 0)
          = (if 0 \<le> ?a ! i then DistMatrix ! i ! nat (?a ! i) else 0)"
      using assignment_cases [OF mt i] flat_cells(2) [of i DistMatrix "nat (?a ! i)"] i
      unfolding n_def m_def by auto
  qed
  show ?thesis
    using S rng inj cost matched_rows_card [OF mt] cd
    by (intro exI [of _ "computeassignmentcost ?a 0 (flat DistMatrix) n"] exI [of _ ?a]) simp
qed

subsection \<open>The values of the working matrix\<close>

lemma DBL_EPSILON_pos: "0 < DBL_EPSILON"
  by (simp add: DBL_EPSILON_def)









subsection \<open>The values after the preliminary steps\<close>










subsection \<open>The cost of the result\<close>







section \<open>Proofs about the filter and the tracker\<close>

lemma cascade_levels_no_boxes:
  "cascade_levels km boxes st levels ([], uo, objs) = Some (Inr ([], uo, objs))"
  by (cases levels) simp_all

lemma cascade_levels_no_objects:
  "cascade_levels km boxes st levels (ub, [], objs) = Some (Inr (ub, [], objs))"
  by (cases levels) simp_all

lemma tracker_update_no_boxes:
  "tracker_update km [] t =
     Some (Inr (t\<lparr>objects := filter (\<lambda>obj. state obj \<noteq> Deleted)
                               (map (\<lambda>obj. mark_missed (track_predict km obj)) (objects t))\<rparr>))"
proof -
  have "fold (\<lambda>index objs. objs[index := mark_missed (objs ! index)])
          [0..<length (map (track_predict km) (objects t))] (map (track_predict km) (objects t))
        = map mark_missed (map (track_predict km) (objects t))"
    by (rule fold_update_all)
  then show ?thesis
    by (simp add: tracker_update_def tracker_predict_def cascade_levels_no_boxes comp_def)
qed

lemma fold_new_object:
  "fold (\<lambda>index t. new_object km (boxes ! index) t) ixs t =
     t\<lparr>objects := objects t @
          map (\<lambda>k. TrackObjectImpl_new (boxes ! (ixs ! k)) (kf_initiate km (boxes ! (ixs ! k)))
                      (id_next t + int k))
              [0..<length ixs],
       id_next := id_next t + int (length ixs)\<rparr>"
proof (induction ixs rule: rev_induct)
  case Nil
  then show ?case by simp
next
  case (snoc i ixs)
  have "map (\<lambda>k. TrackObjectImpl_new (boxes ! ((ixs @ [i]) ! k)) (kf_initiate km (boxes ! ((ixs @ [i]) ! k)))
                      (id_next t + int k)) [0..<length ixs]
        = map (\<lambda>k. TrackObjectImpl_new (boxes ! (ixs ! k)) (kf_initiate km (boxes ! (ixs ! k)))
                      (id_next t + int k)) [0..<length ixs]"
    by (simp add: nth_append)
  moreover have "fold (\<lambda>index t. new_object km (boxes ! index) t) (ixs @ [i]) t
        = new_object km (boxes ! i) (fold (\<lambda>index t. new_object km (boxes ! index) t) ixs t)"
    by simp
  ultimately show ?case
    unfolding snoc by (simp add: new_object_def)
qed

lemma tracker_update_no_objects:
  "tracker_update km boxes \<lparr>id_next = n, objects = []\<rparr> =
     Some (Inr \<lparr>id_next = n + int (length boxes),
                objects = map (\<lambda>k. TrackObjectImpl_new (boxes ! k) (kf_initiate km (boxes ! k)) (n + int k))
                              [0..<length boxes]\<rparr>)"
  by (simp add: tracker_update_def tracker_predict_def cascade_levels_no_objects fold_new_object
      TrackObjectImpl_new_def comp_def)

lemma missed_Deleted: "state tr = Deleted \<Longrightarrow> state (missed km tr) = Deleted"
  by (simp add: missed_def mark_missed_def track_predict_def)

lemma missed_funpow_Deleted: "state tr = Deleted \<Longrightarrow> state ((missed km ^^ k) tr) = Deleted"
  by (induction k) (simp_all add: missed_Deleted)

lemma filter_missed_filter:
  "filter (\<lambda>obj. state obj \<noteq> Deleted)
     (map (missed km ^^ k) (filter (\<lambda>obj. state obj \<noteq> Deleted) xs))
   = filter (\<lambda>obj. state obj \<noteq> Deleted) (map (missed km ^^ k) xs)"
  by (induction xs) (auto simp: missed_funpow_Deleted)

lemma tracker_update_no_boxes_missed:
  "tracker_update km [] t =
     Some (Inr (t\<lparr>objects := filter (\<lambda>obj. state obj \<noteq> Deleted) (map (missed km) (objects t))\<rparr>))"
  unfolding tracker_update_no_boxes missed_def ..

lemma empty_frames_Suc:
  "empty_frames km (Suc k) t =
     empty_frames km k
       (t\<lparr>objects := filter (\<lambda>obj. state obj \<noteq> Deleted) (map (missed km) (objects t))\<rparr>)"
  by (simp add: tracker_update_no_boxes_missed)

lemma empty_frames_eq:
  "empty_frames km (Suc k) t =
     Some (Inr (t\<lparr>objects := filter (\<lambda>obj. state obj \<noteq> Deleted)
                               (map (missed km ^^ Suc k) (objects t))\<rparr>))"
proof (induction k arbitrary: t)
  case 0
  show ?case unfolding empty_frames_Suc by simp
next
  case (Suc k)
  have mm: "map (missed km ^^ Suc k) (map (missed km) xs) = map (missed km ^^ Suc (Suc k)) xs" for xs
    unfolding funpow_Suc_right [of "Suc k"] by simp
  have "filter (\<lambda>obj. state obj \<noteq> Deleted)
           (map (missed km ^^ Suc k) (filter (\<lambda>obj. state obj \<noteq> Deleted) (map (missed km) xs)))
         = filter (\<lambda>obj. state obj \<noteq> Deleted) (map (missed km ^^ Suc (Suc k)) xs)" for xs
    unfolding filter_missed_filter mm ..
  then show ?case
    unfolding empty_frames_Suc [of km "Suc k"] Suc.IH by (simp add: comp_def)
qed

lemma missed_funpow_Confirmed:
  assumes "state tr = Confirmed" and "time_since_update tr = 0" and "k \<le> 30"
  shows "(missed km ^^ k) tr =
           tr\<lparr>mean_covariance := (kf_predict km ^^ k) (mean_covariance tr),
              age := age tr + int k, time_since_update := int k\<rparr>"
  using assms(3)
proof (induction k)
  case 0
  then show ?case using assms by simp
next
  case (Suc k)
  then show ?case
    using assms by (simp add: missed_def mark_missed_def track_predict_def)
qed

subsection \<open>Missed tracks and the gap a confirmed track survives\<close>

lemma missed_31_Deleted:
  assumes "state tr = Confirmed" and "time_since_update tr = 0"
  shows "state ((missed km ^^ 31) tr) = Deleted"
proof -
  have "(missed km ^^ 31) tr = missed km ((missed km ^^ 30) tr)"
    by (simp add: numeral_eq_Suc)
  then show ?thesis
    using assms by (simp add: missed_funpow_Confirmed) (simp add: missed_def mark_missed_def track_predict_def)
qed

text \<open>
  C4.  \<open>mark_missed\<close> deletes a track exactly when it is Tentative or has
  \<open>time_since_update > 30\<close> and changes nothing otherwise.  A Confirmed track with
  \<open>time_since_update = 0\<close>, anywhere in the table, is still in the table after thirty
  frames without detections, Confirmed and with \<open>time_since_update = 30\<close>; the
  thirty-first such frame deletes it and drops it from the table.
\<close>

theorem confirmed_track_survives_30_empty_frames:
  fixes tr x :: "('b, 'k) TrackObjectImpl"
  assumes "state tr = Confirmed" and "time_since_update tr = 0"
  shows "mark_missed x =
           (if state x = Tentative \<or> 30 < time_since_update x then x\<lparr>state := Deleted\<rparr> else x)
       \<and> (\<exists>tr30.
             empty_frames km 30 \<lparr>id_next = n, objects = pre @ tr # post\<rparr> =
               Some (Inr \<lparr>id_next = n,
                          objects = filter (\<lambda>obj. state obj \<noteq> Deleted) (map (missed km ^^ 30) pre)
                                    @ tr30 # filter (\<lambda>obj. state obj \<noteq> Deleted) (map (missed km ^^ 30) post)\<rparr>)
           \<and> state tr30 = Confirmed \<and> time_since_update tr30 = 30
           \<and> track_id tr30 = track_id tr \<and> hits tr30 = hits tr
           \<and> state (mark_missed (track_predict km tr30)) = Deleted)
       \<and> empty_frames km 31 \<lparr>id_next = n, objects = pre @ tr # post\<rparr> =
               Some (Inr \<lparr>id_next = n,
                          objects = filter (\<lambda>obj. state obj \<noteq> Deleted) (map (missed km ^^ 31) pre)
                                    @ filter (\<lambda>obj. state obj \<noteq> Deleted) (map (missed km ^^ 31) post)\<rparr>)"
proof (intro conjI)
  show "mark_missed x =
          (if state x = Tentative \<or> 30 < time_since_update x then x\<lparr>state := Deleted\<rparr> else x)"
    by (simp add: mark_missed_def)
next
  let ?tr30 = "(missed km ^^ 30) tr"
  have eq: "?tr30 = tr\<lparr>mean_covariance := (kf_predict km ^^ 30) (mean_covariance tr),
                        age := age tr + int 30, time_since_update := int 30\<rparr>"
    using assms by (rule missed_funpow_Confirmed) simp
  have "empty_frames km 30 \<lparr>id_next = n, objects = pre @ tr # post\<rparr> =
          Some (Inr \<lparr>id_next = n,
                     objects = filter (\<lambda>obj. state obj \<noteq> Deleted) (map (missed km ^^ 30) pre)
                               @ ?tr30 # filter (\<lambda>obj. state obj \<noteq> Deleted) (map (missed km ^^ 30) post)\<rparr>)"
    using empty_frames_eq [of km 29 "\<lparr>id_next = n, objects = pre @ tr # post\<rparr>"] assms
    by (simp add: eq)
  moreover have "state ?tr30 = Confirmed" "time_since_update ?tr30 = 30"
    "track_id ?tr30 = track_id tr" "hits ?tr30 = hits tr"
    using assms by (simp_all add: eq)
  moreover have "state (mark_missed (track_predict km ?tr30)) = Deleted"
    by (simp add: eq mark_missed_def track_predict_def)
  ultimately show "\<exists>tr30.
             empty_frames km 30 \<lparr>id_next = n, objects = pre @ tr # post\<rparr> =
               Some (Inr \<lparr>id_next = n,
                          objects = filter (\<lambda>obj. state obj \<noteq> Deleted) (map (missed km ^^ 30) pre)
                                    @ tr30 # filter (\<lambda>obj. state obj \<noteq> Deleted) (map (missed km ^^ 30) post)\<rparr>)
           \<and> state tr30 = Confirmed \<and> time_since_update tr30 = 30
           \<and> track_id tr30 = track_id tr \<and> hits tr30 = hits tr
           \<and> state (mark_missed (track_predict km tr30)) = Deleted"
    by blast
next
  show "empty_frames km 31 \<lparr>id_next = n, objects = pre @ tr # post\<rparr> =
               Some (Inr \<lparr>id_next = n,
                          objects = filter (\<lambda>obj. state obj \<noteq> Deleted) (map (missed km ^^ 31) pre)
                                    @ filter (\<lambda>obj. state obj \<noteq> Deleted) (map (missed km ^^ 31) post)\<rparr>)"
    using empty_frames_eq [of km 30 "\<lparr>id_next = n, objects = pre @ tr # post\<rparr>"]
      missed_31_Deleted [OF assms, of km]
    by simp
qed

theorem confirmed_track_survives_30_empty_frames_witness:
  "empty_frames unit_numerics 31
     \<lparr>id_next = 2,
      objects = [(TrackObjectImpl_new 7 () 1)\<lparr>state := Confirmed, hits := 3, age := 3\<rparr>]\<rparr>
   = Some (Inr \<lparr>id_next = 2, objects = []\<rparr>)"
proof -
  let ?tr = "(TrackObjectImpl_new 7 () 1)\<lparr>state := Confirmed, hits := 3, age := 3\<rparr>"
  have "state ?tr = Confirmed" and "time_since_update ?tr = 0"
    by (simp_all add: TrackObjectImpl_new_def)
  from confirmed_track_survives_30_empty_frames
         [OF this, where x = ?tr and km = unit_numerics and n = 2 and pre = "[]" and post = "[]"]
  show ?thesis by simp
qed

subsection \<open>Degenerate frames\<close>

text \<open>
  C8.  A call of \<open>update\<close> with no detections leaves every track as \<open>predict\<close> followed
  by \<open>mark_missed\<close> leaves it (\<open>predict\<close> has incremented \<open>time_since_update\<close>), no
  track is updated from a detection, no track is created and the id counter stays; then
  the deleted tracks are dropped.  A call on an empty table creates one Tentative track
  per detection, in the order of the detections, with consecutive ids.
\<close>

theorem update_degenerate_frames:
  fixes km :: "('b, 'k) numerics" and obj :: "('b, 'k) TrackObjectImpl" and box :: 'b and mc :: 'k
  shows
  "tracker_update km [] t =
     Some (Inr (t\<lparr>objects := filter (\<lambda>obj. state obj \<noteq> Deleted)
                               (map (\<lambda>obj. mark_missed (track_predict km obj)) (objects t))\<rparr>))
   \<and> time_since_update (track_predict km obj) = time_since_update obj + 1
   \<and> tracker_update km boxes \<lparr>id_next = n, objects = []\<rparr> =
       Some (Inr \<lparr>id_next = n + int (length boxes),
                  objects = map (\<lambda>k. TrackObjectImpl_new (boxes ! k) (kf_initiate km (boxes ! k)) (n + int k))
                                [0..<length boxes]\<rparr>)
   \<and> state (TrackObjectImpl_new box mc i) = Tentative"
  by (simp add: tracker_update_no_boxes tracker_update_no_objects track_predict_def
      TrackObjectImpl_new_def)

theorem update_degenerate_frames_witness:
  "tracker_update unit_numerics [] \<lparr>id_next = 2, objects = [TrackObjectImpl_new 7 () 1]\<rparr> =
     Some (Inr \<lparr>id_next = 2, objects = []\<rparr>)
   \<and> tracker_update unit_numerics [5, 6] \<lparr>id_next = 1, objects = []\<rparr> =
       Some (Inr \<lparr>id_next = 3,
                  objects = [TrackObjectImpl_new 5 () 1, TrackObjectImpl_new 6 () 2]\<rparr>)"
  using update_degenerate_frames
    [where km = unit_numerics and t = "\<lparr>id_next = 2, objects = [TrackObjectImpl_new 7 () 1]\<rparr>"
       and boxes = "[5, 6]" and n = 1 and obj = "TrackObjectImpl_new 7 () 1" and box = 7 and mc = "()"
       and i = 1]
  by (simp add: TrackObjectImpl_new_def mark_missed_def track_predict_def unit_numerics_def
      upt_conv_Cons)

subsection \<open>Matching tracks and detections\<close>

lemma cost_matrix_shape:
  "length (cost_matrix km objs oi bi boxes) = length oi"
  "i < length oi \<Longrightarrow> length (cost_matrix km objs oi bi boxes ! i) = length bi"
  "row \<in> set (cost_matrix km objs oi bi boxes) \<Longrightarrow> length row = length bi"
  "oi \<noteq> [] \<Longrightarrow> length (hd (cost_matrix km objs oi bi boxes)) = length bi"
  by (auto simp: cost_matrix_def hd_map)

lemma cost_matrix_cell:
  assumes "i < length oi" and "j < length bi"
  shows "cost_matrix km objs oi bi boxes ! i ! j =
           (if kf_ma_distance km (mean_covariance (objs ! (oi ! i))) (boxes ! (bi ! j)) > chi2inv95_2 ! 3
            then 100000
            else box_distance km (last_position (objs ! (oi ! i))) (boxes ! (bi ! j)))"
  using assms by (simp add: cost_matrix_def Let_def)

lemma accept_rows_eq:
  assumes "\<forall>i\<in>set ixs. asg ! i < int (length bi)"
  shows "accept_rows cm oi bi asg ixs (mb, mo) =
           Inr (mb @ map (\<lambda>i. bi ! nat (asg ! i)) (filter (accepted cm asg) ixs),
                mo @ map (\<lambda>i. oi ! i) (filter (accepted cm asg) ixs))"
  using assms
proof (induction ixs arbitrary: mb mo)
  case Nil
  then show ?case by simp
next
  case (Cons i ixs)
  have i: "asg ! i < int (length bi)" and rest: "\<forall>i\<in>set ixs. asg ! i < int (length bi)"
    using Cons.prems by simp_all
  note IH = Cons.IH [OF rest]
  show ?case
  proof (cases "asg ! i < 0")
    case True
    then show ?thesis using IH by (simp add: accepted_def)
  next
    case False
    then have "\<not> length bi \<le> nat (asg ! i)" using i by linarith
    then show ?thesis using False IH by (simp add: accepted_def Let_def)
  qed
qed

lemma match_total:
  assumes "oi \<noteq> []"
  shows "\<exists>cost asg. Solve (cost_matrix km objs oi bi boxes) = Some (Inr (cost, asg)) \<and>
           length asg = length oi \<and>
           (\<forall>i<length oi. asg ! i = - 1 \<or> (0 \<le> asg ! i \<and> asg ! i < int (length bi))) \<and>
           (\<forall>i<length oi. \<forall>j<length oi. 0 \<le> asg ! i \<longrightarrow> asg ! i = asg ! j \<longrightarrow> i = j) \<and>
           match km objs oi bi boxes =
             Some (Inr (map (\<lambda>i. bi ! nat (asg ! i))
                            (filter (accepted (cost_matrix km objs oi bi boxes) asg) [0..<length oi]),
                        map (\<lambda>i. oi ! i)
                            (filter (accepted (cost_matrix km objs oi bi boxes) asg) [0..<length oi])))"
proof -
  let ?cm = "cost_matrix km objs oi bi boxes"
  have ne: "?cm \<noteq> []" using assms by (simp add: cost_matrix_def)
  have rect: "\<forall>row\<in>set ?cm. length (hd ?cm) \<le> length row"
    using cost_matrix_shape(3) [of _ km objs oi bi boxes]
      cost_matrix_shape(4) [OF assms, of km objs bi boxes] by simp
  from Solve_total [OF ne rect] obtain cost asg where
    S: "Solve ?cm = Some (Inr (cost, asg))" and len: "length asg = length oi"
    and rng: "\<forall>i<length oi. asg ! i = - 1 \<or> (0 \<le> asg ! i \<and> asg ! i < int (length bi))"
    and inj: "\<forall>i<length oi. \<forall>j<length oi. 0 \<le> asg ! i \<longrightarrow> asg ! i = asg ! j \<longrightarrow> i = j"
    unfolding cost_matrix_shape(1) cost_matrix_shape(4) [OF assms] by blast
  have "\<forall>i\<in>set [0..<length asg]. asg ! i < int (length bi)"
    using rng len by auto
  from accept_rows_eq [OF this, of ?cm oi "[]" "[]"]
  have "match km objs oi bi boxes =
             Some (Inr (map (\<lambda>i. bi ! nat (asg ! i)) (filter (accepted ?cm asg) [0..<length oi]),
                        map (\<lambda>i. oi ! i) (filter (accepted ?cm asg) [0..<length oi])))"
    using S len by (simp add: match_def Let_def)
  then show ?thesis using S len rng inj by blast
qed

lemma match_empty: "match km objs [] bi boxes = Some (Inl EmptyMatrix)"
  by (simp add: match_def cost_matrix_def Solve_def)

text \<open>What the tracker needs to know about a successful match.\<close>

lemma match_props:
  assumes "oi \<noteq> []" and "distinct oi"
  shows "\<exists>mb mo. match km objs oi bi boxes = Some (Inr (mb, mo)) \<and>
           length mb = length mo \<and> distinct mo \<and> set mo \<subseteq> set oi \<and> set mb \<subseteq> set bi \<and>
           (distinct bi \<longrightarrow> distinct mb)"
proof -
  let ?cm = "cost_matrix km objs oi bi boxes"
  from match_total [OF assms(1), where bi = bi and km = km and objs = objs and boxes = boxes]
  obtain asg where
    len: "length asg = length oi"
    and rng: "\<forall>i<length oi. asg ! i = - 1 \<or> (0 \<le> asg ! i \<and> asg ! i < int (length bi))"
    and inj: "\<forall>i<length oi. \<forall>j<length oi. 0 \<le> asg ! i \<longrightarrow> asg ! i = asg ! j \<longrightarrow> i = j"
    and M: "match km objs oi bi boxes =
             Some (Inr (map (\<lambda>i. bi ! nat (asg ! i)) (filter (accepted ?cm asg) [0..<length oi]),
                        map (\<lambda>i. oi ! i) (filter (accepted ?cm asg) [0..<length oi])))"
    by blast
  let ?ix = "filter (accepted ?cm asg) [0..<length oi]"
  have ix: "distinct ?ix" "set ?ix \<subseteq> {..<length oi}" "\<forall>i\<in>set ?ix. 0 \<le> asg ! i"
    by (auto simp: accepted_def)
  have "inj_on (\<lambda>i. oi ! i) (set ?ix)"
    using ix(2) assms(2) by (auto simp: inj_on_def nth_eq_iff_index_eq)
  then have d1: "distinct (map (\<lambda>i. oi ! i) ?ix)" using ix(1) by (simp add: distinct_map)
  have s1: "set (map (\<lambda>i. oi ! i) ?ix) \<subseteq> set oi" using ix(2) by auto
  have nat_lt: "nat (asg ! i) < length bi" if "i \<in> set ?ix" for i
    using that rng ix(2,3) by fastforce
  then have s2: "set (map (\<lambda>i. bi ! nat (asg ! i)) ?ix) \<subseteq> set bi" by auto
  have d2: "distinct (map (\<lambda>i. bi ! nat (asg ! i)) ?ix)" if "distinct bi"
  proof -
    have "inj_on (\<lambda>i. bi ! nat (asg ! i)) (set ?ix)"
    proof (rule inj_onI)
      fix i j assume i: "i \<in> set ?ix" and j: "j \<in> set ?ix"
        and eq: "bi ! nat (asg ! i) = bi ! nat (asg ! j)"
      have "nat (asg ! i) = nat (asg ! j)"
        using eq nat_lt [OF i] nat_lt [OF j] that by (simp add: nth_eq_iff_index_eq)
      then have "asg ! i = asg ! j" using ix(3) i j by (metis nat_eq_iff2)
      then show "i = j" using inj ix(2,3) i j by (meson lessThan_iff subsetD)
    qed
    then show ?thesis using ix(1) by (simp add: distinct_map)
  qed
  show ?thesis
    using M d1 s1 s2 d2
    by (intro exI [of _ "map (\<lambda>i. bi ! nat (asg ! i)) ?ix"] exI [of _ "map (\<lambda>i. oi ! i) ?ix"])
       simp
qed

subsection \<open>The matching cascade\<close>

lemma set_symmetric_difference_subset:
  assumes "set ys \<subseteq> set xs"
  shows "set (set_symmetric_difference xs ys) = set xs - set ys"
    and "set (set_symmetric_difference ys xs) = set xs - set ys"
    and "distinct (set_symmetric_difference xs ys)" "sorted (set_symmetric_difference xs ys)"
    and "distinct (set_symmetric_difference ys xs)" "sorted (set_symmetric_difference ys xs)"
  using assms by (auto simp: set_symmetric_difference_def)

lemma matched_update:
  fixes km :: "('b, 'k) numerics" and boxes :: "'b list"
  assumes mo: "distinct mo" "set mo \<subseteq> {..<length objs}" and len: "length mb = length mo"
  defines "objs' \<equiv> fold (\<lambda>i objs. objs[mo ! i := track_update km (boxes ! (mb ! i)) (objs ! (mo ! i))])
                         [0..<min (length mo) (length mb)] objs"
  shows "length objs' = length objs"
    and "k \<notin> set mo \<Longrightarrow> objs' ! k = objs ! k"
    and "i < length mo \<Longrightarrow> objs' ! (mo ! i) = track_update km (boxes ! (mb ! i)) (objs ! (mo ! i))"
proof -
  let ?xs = "[0..<length mo]"
  let ?\<phi> = "\<lambda>i. mo ! i"
  let ?g = "\<lambda>i x. track_update km (boxes ! (mb ! i)) x"
  have o: "objs' = fold (\<lambda>i d. d[?\<phi> i := ?g i (d ! ?\<phi> i)]) ?xs objs"
    unfolding objs'_def using len by simp
  have d: "distinct ?xs" by simp
  have inj: "inj_on ?\<phi> (set ?xs)"
    using mo(1) by (auto simp: inj_on_def nth_eq_iff_index_eq)
  have bnd: "\<forall>i\<in>set ?xs. ?\<phi> i < length objs"
    using mo(2) by (auto simp: subset_iff)
  have img: "?\<phi> ` set ?xs = set mo"
  proof -
    have "set mo = set (map (\<lambda>i. mo ! i) [0..<length mo])" by (simp only: map_nth)
    then show ?thesis by simp
  qed
  show "length objs' = length objs"
    unfolding o by (rule fold_update_at(1) [OF d inj bnd])
  show "objs' ! k = objs ! k" if "k \<notin> set mo"
    unfolding o using fold_update_at(3) [OF d inj bnd, of k ?g] that img by simp
  show "objs' ! (mo ! i) = track_update km (boxes ! (mb ! i)) (objs ! (mo ! i))" if "i < length mo"
    unfolding o using fold_update_at(2) [OF d inj bnd, of i ?g] that by simp
qed

lemma cascade_levels_ok:
  assumes "cascade_ok km boxes objs0 c"
  shows "\<exists>c'. cascade_levels km boxes st levels c = Some (Inr c') \<and> cascade_ok km boxes objs0 c'"
  using assms
proof (induction levels arbitrary: c)
  case Nil
  then show ?case by simp
next
  case (Cons level levels)
  obtain ub uo objs where c: "c = (ub, uo, objs)" by (cases c)
  from Cons.prems have ok: "length objs = length objs0" "distinct uo" "sorted uo"
    "set uo \<subseteq> {..<length objs0}" "distinct ub" "sorted ub" "set ub \<subseteq> {..<length boxes}"
    and tracks: "\<forall>i<length objs0.
           if i \<in> set uo then objs ! i = objs0 ! i
           else (\<exists>b\<in>set boxes. objs ! i = track_update km b (objs0 ! i))"
    unfolding c cascade_ok_def by simp_all
  let ?oi = "filter (\<lambda>index. time_since_update (objs ! index) = int level + 1 \<and>
                               state (objs ! index) = st) uo"
  show ?case
  proof (cases "ub = [] \<or> uo = []")
    case True
    then show ?thesis using Cons.prems unfolding c by auto
  next
    case nonempty: False
    show ?thesis
    proof (cases "?oi = []")
      case True
      from Cons.IH [OF Cons.prems] show ?thesis
        using nonempty True unfolding c by (simp add: Let_def)
    next
      case False
      have "distinct ?oi" using ok(2) by simp
      from match_props [OF False this, of km objs ub boxes] obtain mb mo where
        m: "match km objs ?oi ub boxes = Some (Inr (mb, mo))"
        and len: "length mb = length mo" and dmo: "distinct mo" and smo: "set mo \<subseteq> set ?oi"
        and smb: "set mb \<subseteq> set ub" and dmb: "distinct mb"
        using ok(5) by blast
      have mo_uo: "set mo \<subseteq> set uo" using smo by auto
      then have mo_len: "set mo \<subseteq> {..<length objs}" using ok(1,4) by auto
      let ?ub = "set_symmetric_difference mb ub"
      let ?uo = "set_symmetric_difference uo mo"
      let ?objs = "fold (\<lambda>i objs. objs[mo ! i := track_update km (boxes ! (mb ! i)) (objs ! (mo ! i))])
                         [0..<min (length mo) (length mb)] objs"
      note u = matched_update [OF dmo mo_len len, where km = km and boxes = boxes]
      note so = set_symmetric_difference_subset [OF mo_uo]
      note sb = set_symmetric_difference_subset [OF smb]
      have "cascade_ok km boxes objs0 (?ub, ?uo, ?objs)"
        unfolding cascade_ok_def prod.case
      proof (intro conjI allI impI)
        show "length ?objs = length objs0" using u(1) ok(1) by simp
        show "distinct ?uo" "sorted ?uo" using so by simp_all
        show "set ?uo \<subseteq> {..<length objs0}" using so(1) ok(4) by auto
        show "distinct ?ub" "sorted ?ub" using sb by simp_all
        show "set ?ub \<subseteq> {..<length boxes}" using sb(2) ok(7) by auto
        fix i assume i: "i < length objs0"
        show "if i \<in> set ?uo then ?objs ! i = objs0 ! i
              else (\<exists>b\<in>set boxes. ?objs ! i = track_update km b (objs0 ! i))"
        proof (cases "i \<in> set mo")
          case True
          then obtain k where k: "k < length mo" "mo ! k = i" by (auto simp: in_set_conv_nth)
          have "mb ! k \<in> set ub" using smb k(1) len by (auto simp: subset_iff)
          then have "boxes ! (mb ! k) \<in> set boxes" using ok(7) by auto
          moreover have "objs ! i = objs0 ! i" using tracks i True mo_uo by auto
          ultimately have "\<exists>b\<in>set boxes. ?objs ! i = track_update km b (objs0 ! i)"
            using u(3) [OF k(1)] k(2) by auto
          then show ?thesis using True so(1) by simp
        next
          case False
          then have "?objs ! i = objs ! i" by (rule u(2))
          then show ?thesis using tracks i False so(1) by auto
        qed
      qed
      from Cons.IH [OF this] show ?thesis
        using nonempty False m unfolding c by (simp add: Let_def)
    qed
  qed
qed

lemma cascade_states_ok:
  assumes "cascade_ok km boxes objs0 c"
  shows "\<exists>c'. cascade_states km boxes states c = Some (Inr c') \<and> cascade_ok km boxes objs0 c'"
  using assms
proof (induction states arbitrary: c)
  case Nil
  then show ?case by simp
next
  case (Cons st states)
  from cascade_levels_ok [OF Cons.prems, of st "[0..<30]"] obtain c' where
    c': "cascade_levels km boxes st [0..<30] c = Some (Inr c')" "cascade_ok km boxes objs0 c'"
    by blast
  from Cons.IH [OF c'(2)] show ?case using c'(1) by simp
qed

subsection \<open>One frame\<close>

lemma mark_missed_fold:
  assumes "distinct uo" and "set uo \<subseteq> {..<length objs}"
  defines "objs' \<equiv> fold (\<lambda>index objs. objs[index := mark_missed (objs ! index)]) uo objs"
  shows "length objs' = length objs"
    and "i \<in> set uo \<Longrightarrow> objs' ! i = mark_missed (objs ! i)"
    and "i \<notin> set uo \<Longrightarrow> objs' ! i = objs ! i"
proof -
  have inj: "inj_on (\<lambda>i. i) (set uo)" by simp
  have bnd: "\<forall>i\<in>set uo. (\<lambda>i. i) i < length objs" using assms(2) by auto
  note f = fold_update_at [OF assms(1) inj bnd, where g = "\<lambda>i x. mark_missed x"]
  show "length objs' = length objs" unfolding objs'_def using f(1) by simp
  show "objs' ! i = mark_missed (objs ! i)" if "i \<in> set uo"
    unfolding objs'_def using f(2) [OF that] by simp
  show "objs' ! i = objs ! i" if "i \<notin> set uo"
    unfolding objs'_def using f(3) [of i] that by simp
qed

lemma tracker_update_shape:
  fixes km :: "('b, 'k) numerics" and t :: "('b, 'k) TrackerImpl"
  shows "\<exists>ub objs1.
           tracker_update km boxes t =
             Some (Inr (t\<lparr>objects :=
                           filter (\<lambda>obj. state obj \<noteq> Deleted) objs1 @
                           map (\<lambda>k. TrackObjectImpl_new (boxes ! (ub ! k)) (kf_initiate km (boxes ! (ub ! k)))
                                       (id_next t + int k))
                               [0..<length ub],
                         id_next := id_next t + int (length ub)\<rparr>)) \<and>
           list_all2 (frame_step km boxes) (objects t) objs1 \<and>
           distinct ub \<and> sorted ub \<and> set ub \<subseteq> {..<length boxes}"
proof -
  let ?objs0 = "map (track_predict km) (objects t)"
  have "cascade_ok km boxes ?objs0 ([0..<length boxes], [0..<length ?objs0], ?objs0)"
    by (auto simp: cascade_ok_def)
  from cascade_states_ok [OF this, of "[Confirmed, Tentative]"] obtain ub uo objs where
    c: "cascade_states km boxes [Confirmed, Tentative]
          ([0..<length boxes], [0..<length ?objs0], ?objs0) = Some (Inr (ub, uo, objs))"
    and ok: "cascade_ok km boxes ?objs0 (ub, uo, objs)"
    by (metis prod_cases3)
  from ok have raw: "length objs = length ?objs0" "distinct uo" "set uo \<subseteq> {..<length ?objs0}"
    "distinct ub" "sorted ub" "set ub \<subseteq> {..<length boxes}"
    "\<forall>i<length ?objs0.
           if i \<in> set uo then objs ! i = ?objs0 ! i
           else (\<exists>b\<in>set boxes. objs ! i = track_update km b (?objs0 ! i))"
    unfolding cascade_ok_def prod.case by blast+
  have len: "length objs = length (objects t)" using raw(1) by simp
  have uo: "distinct uo" "set uo \<subseteq> {..<length objs}" using raw(2,3) len by simp_all
  have ub: "distinct ub" "sorted ub" "set ub \<subseteq> {..<length boxes}" using raw(4-6) .
  have tracks: "if i \<in> set uo then objs ! i = track_predict km (objects t ! i)
           else (\<exists>b\<in>set boxes. objs ! i = track_update km b (track_predict km (objects t ! i)))"
    if "i < length (objects t)" for i
    using raw(7) that by auto
  let ?objs1 = "fold (\<lambda>index objs. objs[index := mark_missed (objs ! index)]) uo objs"
  note mm = mark_missed_fold [OF uo]
  have step: "list_all2 (frame_step km boxes) (objects t) ?objs1"
    unfolding list_all2_conv_all_nth
  proof (intro conjI allI impI)
    show "length (objects t) = length ?objs1" using mm(1) len by simp
    fix i assume i: "i < length (objects t)"
    show "frame_step km boxes (objects t ! i) (?objs1 ! i)"
    proof (cases "i \<in> set uo")
      case True
      then have "?objs1 ! i = mark_missed (track_predict km (objects t ! i))"
        using mm(2) [OF True] tracks [OF i] by simp
      then show ?thesis by (simp add: frame_step_def)
    next
      case False
      then have "?objs1 ! i = objs ! i" by (rule mm(3))
      then show ?thesis using tracks [OF i] False by (auto simp: frame_step_def)
    qed
  qed
  let ?new = "map (\<lambda>k. TrackObjectImpl_new (boxes ! (ub ! k)) (kf_initiate km (boxes ! (ub ! k)))
                         (id_next t + int k)) [0..<length ub]"
  have new: "filter (\<lambda>obj. state obj \<noteq> Deleted) ?new = ?new"
    by (simp add: filter_id_conv TrackObjectImpl_new_def)
  have "tracker_update km boxes t =
          Some (Inr (t\<lparr>objects := filter (\<lambda>obj. state obj \<noteq> Deleted) ?objs1 @ ?new,
                       id_next := id_next t + int (length ub)\<rparr>))"
    unfolding tracker_update_def Let_def tracker_predict_def
    using c new by (simp add: fold_new_object)
  then show ?thesis using step ub by blast
qed

subsection \<open>Gated pairs\<close>

lemma sort_remdups_id: "sorted xs \<Longrightarrow> distinct xs \<Longrightarrow> sort (remdups xs) = (xs :: nat list)"
  by (simp add: sorted_sort_id)

lemma set_symmetric_difference_Nil:
  "sorted xs \<Longrightarrow> distinct xs \<Longrightarrow> set_symmetric_difference [] xs = xs"
  "sorted xs \<Longrightarrow> distinct xs \<Longrightarrow> set_symmetric_difference xs [] = xs"
  by (simp_all add: set_symmetric_difference_def sort_remdups_id)

lemma match_all_gated:
  assumes "oi \<noteq> []"
    and "\<forall>i<length oi. \<forall>j<length bi. cost_matrix km objs oi bi boxes ! i ! j = 100000"
  shows "match km objs oi bi boxes = Some (Inr ([], []))"
proof -
  let ?cm = "cost_matrix km objs oi bi boxes"
  from match_total [OF assms(1), where bi = bi and km = km and objs = objs and boxes = boxes]
  obtain asg where
    rng: "\<forall>i<length oi. asg ! i = - 1 \<or> (0 \<le> asg ! i \<and> asg ! i < int (length bi))"
    and M: "match km objs oi bi boxes =
             Some (Inr (map (\<lambda>i. bi ! nat (asg ! i)) (filter (accepted ?cm asg) [0..<length oi]),
                        map (\<lambda>i. oi ! i) (filter (accepted ?cm asg) [0..<length oi])))"
    by blast
  have "\<not> accepted ?cm asg i" if "i < length oi" for i
  proof
    assume a: "accepted ?cm asg i"
    then have "nat (asg ! i) < length bi" using rng that by (auto simp: accepted_def)
    then have "?cm ! i ! nat (asg ! i) = 100000" using assms(2) that by simp
    then show False using a by (simp add: accepted_def)
  qed
  then have "filter (accepted ?cm asg) [0..<length oi] = []"
    by (simp add: filter_empty_conv)
  then show ?thesis using M by simp
qed

lemma cascade_levels_all_gated:
  assumes "sorted ub" "distinct ub" "sorted uo" "distinct uo"
    and "set ub \<subseteq> {..<length boxes}"
    and "\<forall>i\<in>set uo. \<forall>b\<in>set boxes.
           kf_ma_distance km (mean_covariance (objs ! i)) b > chi2inv95_2 ! 3"
  shows "cascade_levels km boxes st levels (ub, uo, objs) = Some (Inr (ub, uo, objs))"
proof (induction levels)
  case Nil
  show ?case by simp
next
  case (Cons level levels)
  let ?oi = "filter (\<lambda>index. time_since_update (objs ! index) = int level + 1 \<and>
                               state (objs ! index) = st) uo"
  show ?case
  proof (cases "ub = [] \<or> uo = [] \<or> ?oi = []")
    case True
    then show ?thesis using Cons by (auto simp: Let_def)
  next
    case False
    have "\<forall>i<length ?oi. \<forall>j<length ub. cost_matrix km objs ?oi ub boxes ! i ! j = 100000"
    proof (intro allI impI)
      fix i j assume i: "i < length ?oi" and j: "j < length ub"
      have "?oi ! i \<in> set uo" using nth_mem [OF i] by simp
      moreover have "boxes ! (ub ! j) \<in> set boxes"
        using assms(5) nth_mem [OF j] by auto
      ultimately show "cost_matrix km objs ?oi ub boxes ! i ! j = 100000"
        using assms(6) cost_matrix_cell [OF i j, of km objs boxes] by simp
    qed
    then have "match km objs ?oi ub boxes = Some (Inr ([], []))"
      using False by (intro match_all_gated) simp_all
    then show ?thesis
      using False Cons assms(1-4) by (simp add: Let_def set_symmetric_difference_Nil)
  qed
qed

lemma tracker_update_all_gated:
  assumes "\<forall>tr\<in>set (objects t). \<forall>b\<in>set boxes.
             kf_ma_distance km (kf_predict km (mean_covariance tr)) b > chi2inv95_2 ! 3"
  shows "tracker_update km boxes t =
           Some (Inr (t\<lparr>objects :=
                         filter (\<lambda>obj. state obj \<noteq> Deleted)
                                (map (\<lambda>obj. mark_missed (track_predict km obj)) (objects t)) @
                         map (\<lambda>k. TrackObjectImpl_new (boxes ! k) (kf_initiate km (boxes ! k))
                                     (id_next t + int k))
                             [0..<length boxes],
                       id_next := id_next t + int (length boxes)\<rparr>))"
proof -
  let ?objs0 = "map (track_predict km) (objects t)"
  let ?ub = "[0..<length boxes]" and ?uo = "[0..<length ?objs0]"
  have g: "\<forall>i\<in>set ?uo. \<forall>b\<in>set boxes.
           kf_ma_distance km (mean_covariance (?objs0 ! i)) b > chi2inv95_2 ! 3"
    using assms by (simp add: track_predict_def)
  have lv: "cascade_levels km boxes st levels (?ub, ?uo, ?objs0) = Some (Inr (?ub, ?uo, ?objs0))"
    for st levels
    by (rule cascade_levels_all_gated [OF _ _ _ _ _ g]) auto
  have c: "cascade_states km boxes [Confirmed, Tentative] (?ub, ?uo, ?objs0)
           = Some (Inr (?ub, ?uo, ?objs0))"
    using lv by simp
  have mm: "fold (\<lambda>index objs. objs[index := mark_missed (objs ! index)]) ?uo ?objs0
            = map mark_missed ?objs0"
    by (rule fold_update_all)
  have new: "filter (\<lambda>obj. state obj \<noteq> Deleted)
               (map (\<lambda>k. TrackObjectImpl_new (boxes ! k) (kf_initiate km (boxes ! k)) (id_next t + int k))
                    [0..<length boxes])
             = map (\<lambda>k. TrackObjectImpl_new (boxes ! k) (kf_initiate km (boxes ! k)) (id_next t + int k))
                    [0..<length boxes]"
    by (simp add: filter_id_conv TrackObjectImpl_new_def)
  have idx: "map (\<lambda>k. TrackObjectImpl_new (boxes ! (?ub ! k)) (kf_initiate km (boxes ! (?ub ! k)))
                          (id_next t + int k)) [0..<length boxes]
             = map (\<lambda>k. TrackObjectImpl_new (boxes ! k) (kf_initiate km (boxes ! k)) (id_next t + int k))
                    [0..<length boxes]"
    by (rule map_cong) simp_all
  show ?thesis
    unfolding tracker_update_def Let_def tracker_predict_def
    using c mm by (simp add: fold_new_object comp_def idx new)
qed

subsection \<open>Invariants of the track table\<close>

lemma frame_step_id: "frame_step km boxes o0 o1 \<Longrightarrow> track_id o1 = track_id o0"
  by (auto simp: frame_step_def mark_missed_def track_predict_def track_update_def Let_def)

lemma frame_step_track_ok:
  assumes "track_ok o0" and "frame_step km boxes o0 o1"
  shows "track_ok o1"
proof -
  let ?p = "track_predict km o0"
  have p: "1 \<le> time_since_update ?p" "1 \<le> hits ?p" "hits ?p + 1 \<le> age ?p"
    "length (trace ?p) \<le> 80"
    using assms(1) by (simp_all add: track_ok_def track_predict_def)
  from assms(2) show ?thesis
    unfolding frame_step_def
  proof
    assume "o1 = mark_missed ?p"
    then show ?thesis using p by (simp add: track_ok_def mark_missed_def)
  next
    assume "\<exists>b\<in>set boxes. o1 = track_update km b ?p"
    then obtain b where "o1 = track_update km b ?p" by blast
    then show ?thesis using p by (auto simp: track_ok_def track_update_def Let_def)
  qed
qed

lemma track_ok_new: "track_ok (TrackObjectImpl_new box mc i)"
  by (simp add: track_ok_def TrackObjectImpl_new_def)

lemma list_all2_ids:
  "list_all2 (frame_step km boxes) xs ys \<Longrightarrow> map track_id ys = map track_id xs"
  by (induction rule: list_all2_induct) (simp_all add: frame_step_id)

lemma sorted_wrt_ids_filter:
  "sorted_wrt (<) (map track_id xs) \<Longrightarrow> sorted_wrt (<) (map track_id (filter P xs))"
  by (induction xs) auto

lemma tracker_update_ok:
  fixes km :: "('b, 'k) numerics" and t :: "('b, 'k) TrackerImpl"
  assumes ids: "ids_ok t" and tr: "\<forall>tr\<in>set (objects t). track_ok tr"
  shows "\<exists>t'. tracker_update km boxes t = Some (Inr t') \<and> ids_ok t' \<and>
           (\<forall>tr\<in>set (objects t'). track_ok tr) \<and>
           (\<forall>tr\<in>set (objects t'). state tr \<noteq> Deleted)"
proof -
  from tracker_update_shape [of km boxes t] obtain ub objs1 where
    u: "tracker_update km boxes t =
             Some (Inr (t\<lparr>objects :=
                           filter (\<lambda>obj. state obj \<noteq> Deleted) objs1 @
                           map (\<lambda>k. TrackObjectImpl_new (boxes ! (ub ! k)) (kf_initiate km (boxes ! (ub ! k)))
                                       (id_next t + int k))
                               [0..<length ub],
                         id_next := id_next t + int (length ub)\<rparr>))"
    and st: "list_all2 (frame_step km boxes) (objects t) objs1"
    by blast
  let ?old = "filter (\<lambda>obj. state obj \<noteq> Deleted) objs1"
  let ?new = "map (\<lambda>k. TrackObjectImpl_new (boxes ! (ub ! k)) (kf_initiate km (boxes ! (ub ! k)))
                         (id_next t + int k)) [0..<length ub]"
  let ?t' = "t\<lparr>objects := ?old @ ?new, id_next := id_next t + int (length ub)\<rparr>"
  have ids1: "map track_id objs1 = map track_id (objects t)" using st by (rule list_all2_ids)
  have old_sorted: "sorted_wrt (<) (map track_id ?old)"
    using ids ids1 by (intro sorted_wrt_ids_filter) (simp add: ids_ok_def)
  have old_lt: "track_id x < id_next t" if "x \<in> set ?old" for x
  proof -
    have "track_id x \<in> set (map track_id objs1)" using that by auto
    then show ?thesis using ids unfolding ids1 ids_ok_def by auto
  qed
  have new_ids: "map track_id ?new = map (\<lambda>k. id_next t + int k) [0..<length ub]"
    by (simp add: TrackObjectImpl_new_def comp_def)
  have new_sorted: "sorted_wrt (<) (map track_id ?new)"
    unfolding new_ids by (simp add: sorted_wrt_map sorted_wrt_upt [unfolded sorted_wrt_iff_nth_less] sorted_wrt_iff_nth_less)
  have cross: "a < b" if "a \<in> set (map track_id ?old)" "b \<in> set (map track_id ?new)" for a b
  proof -
    from that(1) obtain x where "x \<in> set ?old" "a = track_id x" by auto
    then have "a < id_next t" using old_lt by simp
    moreover from that(2) have "id_next t \<le> b" unfolding new_ids by auto
    ultimately show ?thesis by simp
  qed
  have "sorted_wrt (<) (map track_id (?old @ ?new))"
    unfolding map_append sorted_wrt_append
    using old_sorted new_sorted cross by blast
  moreover have "\<forall>x\<in>set (?old @ ?new). track_id x < id_next t + int (length ub)"
  proof
    fix x assume "x \<in> set (?old @ ?new)"
    then consider "x \<in> set ?old" | "x \<in> set ?new" by auto
    then show "track_id x < id_next t + int (length ub)"
    proof cases
      case 1
      then have "track_id x < id_next t" by (rule old_lt)
      then show ?thesis by simp
    next
      case 2
      then have "track_id x \<in> set (map track_id ?new)" by (simp only: set_map) (rule imageI)
      then show ?thesis unfolding new_ids by auto
    qed
  qed
  ultimately have "ids_ok ?t'" by (simp add: ids_ok_def)
  moreover have "\<forall>x\<in>set (objects ?t'). track_ok x"
  proof
    fix x assume "x \<in> set (objects ?t')"
    then consider "x \<in> set objs1" | "x \<in> set ?new" by auto
    then show "track_ok x"
    proof cases
      case 1
      then obtain i where i: "i < length objs1" "objs1 ! i = x" by (auto simp: in_set_conv_nth)
      then have "frame_step km boxes (objects t ! i) x" "objects t ! i \<in> set (objects t)"
        using st by (auto simp: list_all2_conv_all_nth)
      then show ?thesis using tr frame_step_track_ok by blast
    next
      case 2
      then show ?thesis by (auto simp: track_ok_new)
    qed
  qed
  moreover have "\<forall>x\<in>set (objects ?t'). state x \<noteq> Deleted"
    by (auto simp: TrackObjectImpl_new_def)
  ultimately show ?thesis using u by blast
qed

lemma reachable_ok:
  assumes "reachable km t"
  shows "ids_ok t \<and> (\<forall>tr\<in>set (objects t). track_ok tr)"
  using assms
proof (induction rule: reachable.induct)
  case initial
  show ?case by (simp add: ids_ok_def TrackerImpl_new_def)
next
  case (update t boxes t')
  from tracker_update_ok [of t km boxes] update show ?case by auto
qed

subsection \<open>The solver returns a matching\<close>

text \<open>
  C5.  For every matrix with \<open>N \<ge> 1\<close> rows of one length \<open>M\<close>, \<open>Solve\<close> returns: the
  assignment has one entry per row, every entry is \<open>-1\<close> or a column index below \<open>M\<close>, no
  column index occurs in two rows, and the returned cost is the sum of the cells of the
  input matrix that the assignment selects.  (The entries need not be nonnegative for
  this.)
\<close>

theorem Solve_valid_matching:
  assumes "DistMatrix \<noteq> []" and "\<forall>row\<in>set DistMatrix. length row = length (hd DistMatrix)"
  shows "\<exists>cost asg.
           Solve DistMatrix = Some (Inr (cost, asg)) \<and> length asg = length DistMatrix \<and>
           (\<forall>i<length DistMatrix. - 1 \<le> asg ! i \<and> asg ! i < int (length (hd DistMatrix))) \<and>
           (\<forall>i<length DistMatrix. \<forall>j<length DistMatrix.
              0 \<le> asg ! i \<longrightarrow> asg ! i = asg ! j \<longrightarrow> i = j) \<and>
           cost = (\<Sum>i<length DistMatrix. if 0 \<le> asg ! i then DistMatrix ! i ! nat (asg ! i) else 0)"
proof -
  have "\<forall>row\<in>set DistMatrix. length (hd DistMatrix) \<le> length row"
  proof
    fix row assume "row \<in> set DistMatrix"
    then have "length row = length (hd DistMatrix)" using assms(2) by blast
    then show "length (hd DistMatrix) \<le> length row" by (rule eq_imp_le [OF sym])
  qed
  from Solve_total [OF assms(1) this] obtain cost asg where
    "Solve DistMatrix = Some (Inr (cost, asg))" "length asg = length DistMatrix"
    "\<forall>i<length DistMatrix. asg ! i = - 1 \<or> (0 \<le> asg ! i \<and> asg ! i < int (length (hd DistMatrix)))"
    "\<forall>i<length DistMatrix. \<forall>j<length DistMatrix. 0 \<le> asg ! i \<longrightarrow> asg ! i = asg ! j \<longrightarrow> i = j"
    "cost = (\<Sum>i<length DistMatrix. if 0 \<le> asg ! i then DistMatrix ! i ! nat (asg ! i) else 0)"
    by blast
  moreover from this(3) have
    "\<forall>i<length DistMatrix. - 1 \<le> asg ! i \<and> asg ! i < int (length (hd DistMatrix))"
    by fastforce
  ultimately show ?thesis by blast
qed

theorem Solve_valid_matching_witness:
  "\<exists>cost asg.
     Solve [[4, 1, 3], [2, 0, 5]] = Some (Inr (cost, asg)) \<and> length asg = 2 \<and>
     (\<forall>i<2. - 1 \<le> asg ! i \<and> asg ! i < 3) \<and>
     (\<forall>i<2. \<forall>j<2. 0 \<le> asg ! i \<longrightarrow> asg ! i = asg ! j \<longrightarrow> i = j) \<and>
     cost = (\<Sum>i<2. if 0 \<le> asg ! i then [[4, 1, 3], [2, 0, 5]] ! i ! nat (asg ! i) else 0)"
  using Solve_valid_matching [of "[[4, 1, 3], [2, 0, 5]]"] by (simp add: numeral_2_eq_2)

subsection \<open>The track table after a frame\<close>

text \<open>
  C6.  From every state of the tracker that calls of \<open>update\<close> can produce, a further
  call of \<open>update\<close> returns a table without Deleted tracks, whose ids are pairwise
  distinct, increase in the order of the table (which is the order of creation) and lie
  below the id counter.  \<open>new_object\<close> appends a track with the current value of the
  counter and increments the counter.
\<close>

theorem update_ids_distinct_no_deleted:
  fixes km :: "('b, 'k) numerics"
  assumes "reachable km t"
  shows "\<exists>t'. tracker_update km boxes t = Some (Inr t') \<and>
           (\<forall>tr\<in>set (objects t'). state tr \<noteq> Deleted) \<and>
           distinct (map track_id (objects t')) \<and> sorted (map track_id (objects t')) \<and>
           (\<forall>tr\<in>set (objects t'). track_id tr < id_next t') \<and>
           objects (new_object km box t) =
             objects t @ [TrackObjectImpl_new box (kf_initiate km box) (id_next t)] \<and>
           id_next (new_object km box t) = id_next t + 1"
proof -
  from reachable_ok [OF assms] have "ids_ok t" "\<forall>tr\<in>set (objects t). track_ok tr" by simp_all
  from tracker_update_ok [OF this, of km boxes] obtain t' where
    t': "tracker_update km boxes t = Some (Inr t')" "ids_ok t'"
    "\<forall>tr\<in>set (objects t'). state tr \<noteq> Deleted"
    by blast
  from t'(2) have "sorted (map track_id (objects t'))" "distinct (map track_id (objects t'))"
    "\<forall>tr\<in>set (objects t'). track_id tr < id_next t'"
    by (simp_all add: ids_ok_def strict_sorted_iff)
  then show ?thesis using t' by (simp add: new_object_def)
qed

theorem update_ids_distinct_no_deleted_witness:
  "\<exists>t'. tracker_update unit_numerics [5, 6] TrackerImpl_new = Some (Inr t') \<and>
           (\<forall>tr\<in>set (objects t'). state tr \<noteq> Deleted) \<and>
           distinct (map track_id (objects t')) \<and> sorted (map track_id (objects t')) \<and>
           (\<forall>tr\<in>set (objects t'). track_id tr < id_next t')"
  using update_ids_distinct_no_deleted [OF reachable.initial, of unit_numerics "[5, 6]" 7]
  by blast

text \<open>
  C7.  From every state of the tracker that calls of \<open>update\<close> can produce, a further
  call of \<open>update\<close> returns a table in which every track has
  \<open>time_since_update \<ge> 0\<close>, \<open>hits \<ge> 1\<close>, \<open>age \<ge> hits\<close> and at most 80 boxes in its trace.
  The \<open>update\<close> of a track appends the box to the trace and drops the first box when the
  trace has then more than 80 boxes.
\<close>

theorem update_track_counters:
  fixes km :: "('b, 'k) numerics"
  assumes "reachable km t"
  shows "\<exists>t'. tracker_update km boxes t = Some (Inr t') \<and>
           (\<forall>tr\<in>set (objects t').
              0 \<le> time_since_update tr \<and> 1 \<le> hits tr \<and> hits tr \<le> age tr \<and>
              length (trace tr) \<le> 80) \<and>
           trace (track_update km box tr0) =
             (if 80 < length (trace tr0 @ [box]) then tl (trace tr0 @ [box]) else trace tr0 @ [box])"
proof -
  from reachable_ok [OF assms] have "ids_ok t" "\<forall>tr\<in>set (objects t). track_ok tr" by simp_all
  from tracker_update_ok [OF this, of km boxes] obtain t' where
    "tracker_update km boxes t = Some (Inr t')" "\<forall>tr\<in>set (objects t'). track_ok tr"
    by blast
  then show ?thesis by (auto simp: track_ok_def track_update_def Let_def)
qed

theorem update_track_counters_witness:
  "\<exists>t'. tracker_update unit_numerics [5, 6] TrackerImpl_new = Some (Inr t') \<and>
           (\<forall>tr\<in>set (objects t').
              0 \<le> time_since_update tr \<and> 1 \<le> hits tr \<and> hits tr \<le> age tr \<and>
              length (trace tr) \<le> 80)"
  using update_track_counters [OF reachable.initial, of unit_numerics "[5, 6]" 7 "TrackObjectImpl_new 7 () 1"]
  by blast

subsection \<open>The solver is called with a matrix that has a first row\<close>

text \<open>
  C10.  A call of \<open>update\<close> returns a table: it never ends in the error of an access
  outside an array, whatever the table and the detections are.  The cascade does not
  call \<open>match\<close> when no detection or no track is unmatched, and it calls it with the
  tracks of a level only when there is one; with at least one track the cost matrix has a
  first row, \<open>Solve\<close> returns an assignment and \<open>match\<close> a result.  With no track \<open>match\<close>
  would read \<open>DistMatrix[0]\<close> of an empty vector.  \<open>Solve\<close> returns on every matrix with
  at least one row whose rows have one length.
\<close>

theorem update_never_out_of_bounds:
  fixes km :: "('b, 'k) numerics"
  shows "(\<exists>t'. tracker_update km boxes t = Some (Inr t')) \<and>
         cascade_levels km boxes st levels ([], uo, objs) = Some (Inr ([], uo, objs)) \<and>
         cascade_levels km boxes st levels (ub, [], objs) = Some (Inr (ub, [], objs)) \<and>
         (oi \<noteq> [] \<longrightarrow>
            cost_matrix km objs oi bi boxes \<noteq> [] \<and>
            (\<exists>r. Solve (cost_matrix km objs oi bi boxes) = Some (Inr r)) \<and>
            (\<exists>r. match km objs oi bi boxes = Some (Inr r))) \<and>
         match km objs [] bi boxes = Some (Inl EmptyMatrix) \<and>
         (DistMatrix \<noteq> [] \<longrightarrow> (\<forall>row\<in>set DistMatrix. length row = length (hd DistMatrix)) \<longrightarrow>
            (\<exists>r. Solve DistMatrix = Some (Inr r)))"
proof (intro conjI impI)
  show "\<exists>t'. tracker_update km boxes t = Some (Inr t')"
    using tracker_update_shape [of km boxes t] by blast
  show "cascade_levels km boxes st levels ([], uo, objs) = Some (Inr ([], uo, objs))"
    by (rule cascade_levels_no_boxes)
  show "cascade_levels km boxes st levels (ub, [], objs) = Some (Inr (ub, [], objs))"
    by (rule cascade_levels_no_objects)
  show "match km objs [] bi boxes = Some (Inl EmptyMatrix)"
    by (rule match_empty)
next
  assume oi: "oi \<noteq> []"
  then show "cost_matrix km objs oi bi boxes \<noteq> []" by (simp add: cost_matrix_def)
  from match_total [OF oi, where bi = bi and km = km and objs = objs and boxes = boxes]
  show "\<exists>r. Solve (cost_matrix km objs oi bi boxes) = Some (Inr r)"
    "\<exists>r. match km objs oi bi boxes = Some (Inr r)"
    by blast+
next
  assume ne: "DistMatrix \<noteq> []" and eq: "\<forall>row\<in>set DistMatrix. length row = length (hd DistMatrix)"
  have "\<forall>row\<in>set DistMatrix. length (hd DistMatrix) \<le> length row"
  proof
    fix row assume "row \<in> set DistMatrix"
    then have "length row = length (hd DistMatrix)" using eq by blast
    then show "length (hd DistMatrix) \<le> length row" by (rule eq_imp_le [OF sym])
  qed
  from Solve_total [OF ne this] show "\<exists>r. Solve DistMatrix = Some (Inr r)" by blast
qed

theorem update_never_out_of_bounds_witness:
  "(\<exists>t'. tracker_update unit_numerics [7] \<lparr>id_next = 2, objects = [TrackObjectImpl_new 7 () 1]\<rparr>
          = Some (Inr t')) \<and>
   (\<exists>r. match unit_numerics [track_predict unit_numerics (TrackObjectImpl_new 7 () 1)] [0] [0] [7]
          = Some (Inr r)) \<and>
   (\<exists>r. Solve [[4, 1, 3], [2, 0, 5]] = Some (Inr r))"
  using update_never_out_of_bounds
    [where km = unit_numerics and boxes = "[7]"
       and t = "\<lparr>id_next = 2, objects = [TrackObjectImpl_new 7 () 1]\<rparr>"
       and oi = "[0]" and bi = "[0]"
       and objs = "[track_predict unit_numerics (TrackObjectImpl_new 7 () 1)]"
       and DistMatrix = "[[4, 1, 3], [2, 0, 5]]"]
  by simp

subsection \<open>Gating and acceptance\<close>

lemma accepted_eq: "accepted cm asg = (\<lambda>i. 0 \<le> asg ! i \<and> cm ! i ! nat (asg ! i) < 200)"
  by (simp add: fun_eq_iff accepted_def)

text \<open>
  C3.  In the cost matrix of \<open>match\<close> the cell of a track and a detection whose squared
  Mahalanobis distance exceeds \<open>chi2inv95_2[3] = 9.4877\<close> is \<open>1e5\<close>.  \<open>match\<close> returns the
  pairs of the rows \<open>i\<close> to which \<open>Solve\<close> assigned a column and whose cell in that column
  is less than 200, and no others.  If the distance of every track of the table (as
  \<open>predict\<close> leaves it) to every detection exceeds \<open>9.4877\<close>, then \<open>update\<close> matches
  nothing: every track is marked missed and every detection becomes a new track.
\<close>

theorem gated_pairs_never_match:
  fixes km :: "('b, 'k) numerics"
  shows "chi2inv95_2 ! 3 = 9.4877 \<and>
         (i < length oi \<longrightarrow> j < length bi \<longrightarrow>
            9.4877 < kf_ma_distance km (mean_covariance (objs ! (oi ! i))) (boxes ! (bi ! j)) \<longrightarrow>
            cost_matrix km objs oi bi boxes ! i ! j = 100000) \<and>
         (oi \<noteq> [] \<longrightarrow>
            (\<exists>cost asg.
               Solve (cost_matrix km objs oi bi boxes) = Some (Inr (cost, asg)) \<and>
               match km objs oi bi boxes =
                 Some (Inr (map (\<lambda>i. bi ! nat (asg ! i))
                              (filter (\<lambda>i. 0 \<le> asg ! i \<and>
                                           cost_matrix km objs oi bi boxes ! i ! nat (asg ! i) < 200)
                                      [0..<length oi]),
                            map (\<lambda>i. oi ! i)
                              (filter (\<lambda>i. 0 \<le> asg ! i \<and>
                                           cost_matrix km objs oi bi boxes ! i ! nat (asg ! i) < 200)
                                      [0..<length oi]))))) \<and>
         ((\<forall>tr\<in>set (objects t). \<forall>b\<in>set boxes.
             9.4877 < kf_ma_distance km (kf_predict km (mean_covariance tr)) b) \<longrightarrow>
          tracker_update km boxes t =
            Some (Inr (t\<lparr>objects :=
                         filter (\<lambda>obj. state obj \<noteq> Deleted)
                                (map (\<lambda>obj. mark_missed (track_predict km obj)) (objects t)) @
                         map (\<lambda>k. TrackObjectImpl_new (boxes ! k) (kf_initiate km (boxes ! k))
                                     (id_next t + int k))
                             [0..<length boxes],
                       id_next := id_next t + int (length boxes)\<rparr>)))"
proof (intro conjI impI)
  show chi: "chi2inv95_2 ! 3 = 9.4877"
    by (simp add: chi2inv95_2_def numeral_3_eq_3)
  show "cost_matrix km objs oi bi boxes ! i ! j = 100000"
    if "i < length oi" "j < length bi"
      "9.4877 < kf_ma_distance km (mean_covariance (objs ! (oi ! i))) (boxes ! (bi ! j))"
    using cost_matrix_cell [OF that(1,2), of km objs boxes] that(3) unfolding chi by simp
  show "\<exists>cost asg.
               Solve (cost_matrix km objs oi bi boxes) = Some (Inr (cost, asg)) \<and>
               match km objs oi bi boxes =
                 Some (Inr (map (\<lambda>i. bi ! nat (asg ! i))
                              (filter (\<lambda>i. 0 \<le> asg ! i \<and>
                                           cost_matrix km objs oi bi boxes ! i ! nat (asg ! i) < 200)
                                      [0..<length oi]),
                            map (\<lambda>i. oi ! i)
                              (filter (\<lambda>i. 0 \<le> asg ! i \<and>
                                           cost_matrix km objs oi bi boxes ! i ! nat (asg ! i) < 200)
                                      [0..<length oi])))"
    if "oi \<noteq> []"
    using match_total [OF that, where bi = bi and km = km and objs = objs and boxes = boxes]
    unfolding accepted_eq by blast
  show "tracker_update km boxes t =
            Some (Inr (t\<lparr>objects :=
                         filter (\<lambda>obj. state obj \<noteq> Deleted)
                                (map (\<lambda>obj. mark_missed (track_predict km obj)) (objects t)) @
                         map (\<lambda>k. TrackObjectImpl_new (boxes ! k) (kf_initiate km (boxes ! k))
                                     (id_next t + int k))
                             [0..<length boxes],
                       id_next := id_next t + int (length boxes)\<rparr>))"
    if "\<forall>tr\<in>set (objects t). \<forall>b\<in>set boxes.
             9.4877 < kf_ma_distance km (kf_predict km (mean_covariance tr)) b"
    using that by (intro tracker_update_all_gated) (simp add: chi)
qed

theorem gated_pairs_never_match_witness:
  "cost_matrix gating_numerics
     [track_predict gating_numerics ((TrackObjectImpl_new 7 () 1)\<lparr>state := Confirmed, hits := 3, age := 3\<rparr>)]
     [0] [0] [5] ! 0 ! 0 = 100000 \<and>
   tracker_update gating_numerics [5]
     \<lparr>id_next = 2,
      objects = [(TrackObjectImpl_new 7 () 1)\<lparr>state := Confirmed, hits := 3, age := 3\<rparr>]\<rparr> =
     Some (Inr \<lparr>id_next = 3,
                objects = [(TrackObjectImpl_new 7 () 1)
                             \<lparr>state := Confirmed, hits := 3, age := 4, time_since_update := 1\<rparr>,
                           TrackObjectImpl_new 5 () 2]\<rparr>)"
  using gated_pairs_never_match
    [where km = gating_numerics and i = 0 and j = 0 and oi = "[0]" and bi = "[0]" and boxes = "[5]"
       and objs = "[track_predict gating_numerics
                      ((TrackObjectImpl_new 7 () 1)\<lparr>state := Confirmed, hits := 3, age := 3\<rparr>)]"
       and t = "\<lparr>id_next = 2,
                 objects = [(TrackObjectImpl_new 7 () 1)\<lparr>state := Confirmed, hits := 3, age := 3\<rparr>]\<rparr>"]
  by (simp add: gating_numerics_def unit_numerics_def track_predict_def mark_missed_def
      TrackObjectImpl_new_def)

subsection \<open>The Kalman filter\<close>

lemma float_exp_small: "a < 2 ^ 24 \<Longrightarrow> float_exp a = 0"
  by (subst float_exp.simps) simp

lemma float_exp_16777216: "float_exp 16777216 = Suc 0"
  by (subst float_exp.simps, simp, rule float_exp_small, simp)

lemma float_exp_16777217: "float_exp 16777217 = Suc 0"
  by (subst float_exp.simps, simp, rule float_exp_small, simp)

lemma float_of_int_16777217: "float_of_int 16777217 = 16777216"
  by (simp add: float_of_int_def float_exp_16777217 Let_def)

lemma float_of_int_exact:
  assumes "\<bar>i\<bar> \<le> 2 ^ 24"
  shows "float_of_int i = real_of_int i"
proof (cases "\<bar>i\<bar> < 2 ^ 24")
  case True
  then have "float_exp \<bar>i\<bar> = 0" by (rule float_exp_small)
  then show ?thesis by (simp add: float_of_int_def Let_def)
next
  case False
  with assms have a: "\<bar>i\<bar> = 16777216" by simp
  show ?thesis
    unfolding float_of_int_def a float_exp_16777216 Let_def using a by (cases "i < 0") auto
qed

lemma blocks_explicit:
  "blocks [a0, a1, a2, a3] [b0, b1, b2, b3] [c0, c1, c2, c3] [d0, d1, d2, d3] =
     [[a0, 0, 0, 0, b0, 0, 0, 0],
      [0, a1, 0, 0, 0, b1, 0, 0],
      [0, 0, a2, 0, 0, 0, b2, 0],
      [0, 0, 0, a3, 0, 0, 0, b3],
      [c0, 0, 0, 0, d0, 0, 0, 0],
      [0, c1, 0, 0, 0, d1, 0, 0],
      [0, 0, c2, 0, 0, 0, d2, 0],
      [0, 0, 0, c3, 0, 0, 0, d3]]"
  by (simp add: blocks_def upt_conv_Cons)

lemma blocks_take:
  "blocks a b c d = blocks [a ! 0, a ! 1, a ! 2, a ! 3] [b ! 0, b ! 1, b ! 2, b ! 3]
                           [c ! 0, c ! 1, c ! 2, c ! 3] [d ! 0, d ! 1, d ! 2, d ! 3]"
  by (simp add: blocks_def upt_conv_Cons numeral_2_eq_2 numeral_3_eq_3)

lemma block_covE:
  assumes "block_cov M"
  obtains a0 a1 a2 a3 b0 b1 b2 b3 c0 c1 c2 c3 d0 d1 d2 d3 where
    "M = [[a0, 0, 0, 0, b0, 0, 0, 0],
          [0, a1, 0, 0, 0, b1, 0, 0],
          [0, 0, a2, 0, 0, 0, b2, 0],
          [0, 0, 0, a3, 0, 0, 0, b3],
          [c0, 0, 0, 0, d0, 0, 0, 0],
          [0, c1, 0, 0, 0, d1, 0, 0],
          [0, 0, c2, 0, 0, 0, d2, 0],
          [0, 0, 0, c3, 0, 0, 0, d3]]"
proof -
  from assms obtain a b c d where "M = blocks a b c d" unfolding block_cov_def by blast
  then have "M = blocks [a ! 0, a ! 1, a ! 2, a ! 3] [b ! 0, b ! 1, b ! 2, b ! 3]
                           [c ! 0, c ! 1, c ! 2, c ! 3] [d ! 0, d ! 1, d ! 2, d ! 3]"
    using blocks_take by simp
  then show thesis using that unfolding blocks_explicit by blast
qed

lemma block_covI:
  "block_cov [[a0, 0, 0, 0, b0, 0, 0, 0],
      [0, a1, 0, 0, 0, b1, 0, 0],
      [0, 0, a2, 0, 0, 0, b2, 0],
      [0, 0, 0, a3, 0, 0, 0, b3],
      [c0, 0, 0, 0, d0, 0, 0, 0],
      [0, c1, 0, 0, 0, d1, 0, 0],
      [0, 0, c2, 0, 0, 0, d2, 0],
      [0, 0, 0, c3, 0, 0, 0, d3]]"
  unfolding block_cov_def using blocks_explicit [symmetric] by blast

lemmas mat_eval = mat_vec_def mat_mul_def mat_add_def mat_sub_def update_mat_def motion_mat_def
  Identity_def asDiagonal_def dot_def upt_conv_Cons transpose.simps Let_def

lemma initiate_block: "block_cov (snd (initiate boxah))"
  by (simp add: initiate_def mat_eval block_covI)

lemma predict_block:
  assumes "block_cov covariance"
  shows "block_cov (snd (kf_predict_real mean covariance))"
proof -
  from assms obtain a0 a1 a2 a3 b0 b1 b2 b3 c0 c1 c2 c3 d0 d1 d2 d3 where
    M: "covariance = [[a0, 0, 0, 0, b0, 0, 0, 0],
          [0, a1, 0, 0, 0, b1, 0, 0],
          [0, 0, a2, 0, 0, 0, b2, 0],
          [0, 0, 0, a3, 0, 0, 0, b3],
          [c0, 0, 0, 0, d0, 0, 0, 0],
          [0, c1, 0, 0, 0, d1, 0, 0],
          [0, 0, c2, 0, 0, 0, d2, 0],
          [0, 0, 0, c3, 0, 0, 0, d3]]"
    by (rule block_covE)
  show ?thesis
    unfolding M by (simp add: kf_predict_real_def mat_eval block_covI)
qed

lemma project_block:
  assumes "block_cov covariance"
  shows "\<exists>p0 p1 p2 p3 s0 s1 s2 s3.
           project mean covariance =
             ([p0, p1, p2, p3],
              [[s0, 0, 0, 0], [0, s1, 0, 0], [0, 0, s2, 0], [0, 0, 0, s3]])"
proof -
  from assms obtain a0 a1 a2 a3 b0 b1 b2 b3 c0 c1 c2 c3 d0 d1 d2 d3 where
    M: "covariance = [[a0, 0, 0, 0, b0, 0, 0, 0],
          [0, a1, 0, 0, 0, b1, 0, 0],
          [0, 0, a2, 0, 0, 0, b2, 0],
          [0, 0, 0, a3, 0, 0, 0, b3],
          [c0, 0, 0, 0, d0, 0, 0, 0],
          [0, c1, 0, 0, 0, d1, 0, 0],
          [0, 0, c2, 0, 0, 0, d2, 0],
          [0, 0, 0, c3, 0, 0, 0, d3]]"
    by (rule block_covE)
  show ?thesis
    unfolding M by (simp add: project_def mat_eval)
qed

lemma inverse_mat_diag:
  "inverse_mat [[s0, 0, 0, 0], [0, s1, 0, 0], [0, 0, s2, 0], [0, 0, 0, s3]] =
     [[1 / s0, 0, 0, 0], [0, 1 / s1, 0, 0], [0, 0, 1 / s2, 0], [0, 0, 0, 1 / s3]]"
  by (simp add: inverse_mat_def eliminate_def Identity_def upt_conv_Cons Let_def)

lemma update_block:
  assumes "block_cov covariance"
  shows "block_cov (snd (kf_update_real boxah mean covariance))"
proof -
  from assms obtain a0 a1 a2 a3 b0 b1 b2 b3 c0 c1 c2 c3 d0 d1 d2 d3 where
    M: "covariance = [[a0, 0, 0, 0, b0, 0, 0, 0],
          [0, a1, 0, 0, 0, b1, 0, 0],
          [0, 0, a2, 0, 0, 0, b2, 0],
          [0, 0, 0, a3, 0, 0, 0, b3],
          [c0, 0, 0, 0, d0, 0, 0, 0],
          [0, c1, 0, 0, 0, d1, 0, 0],
          [0, 0, c2, 0, 0, 0, d2, 0],
          [0, 0, 0, c3, 0, 0, 0, d3]]"
    by (rule block_covE)
  from project_block [OF assms, of mean] obtain p0 p1 p2 p3 s0 s1 s2 s3 where
    P: "project mean covariance =
             ([p0, p1, p2, p3],
              [[s0, 0, 0, 0], [0, s1, 0, 0], [0, 0, s2, 0], [0, 0, 0, s3]])"
    by blast
  show ?thesis
    unfolding kf_update_real_def P
    unfolding M by (simp add: inverse_mat_diag mat_eval block_covI)
qed

lemma kf_state_block: "kf_state s \<Longrightarrow> block_cov (snd s)"
proof (induction rule: kf_state.induct)
  case (initiate boxah)
  show ?case by (rule initiate_block)
next
  case (predict mean covariance)
  then show ?case using predict_block by simp
next
  case (update mean covariance boxah)
  then show ?case using update_block by simp
qed







text \<open>
  C9.  The measurement \<open>(16777217, 0, 1, 1)\<close>: the state that \<open>initiate\<close> writes holds
  \<open>center_x\<close> as a \<open>float\<close>, and \<open>16777217 = 2\<^sup>2\<^sup>4 + 1\<close> is not one; the
  projected mean has \<open>16777216\<close> in its place.
\<close>

theorem project_initiate_mean_rounds:
  "fst (project (fst (initiate \<lparr>center_x = 16777217, center_y = 0, aspect_ratio = 1, height = 1\<rparr>))
                (snd (initiate \<lparr>center_x = 16777217, center_y = 0, aspect_ratio = 1, height = 1\<rparr>)))
     = [16777216, 0, 1, 1]
   \<and> [16777216, 0, 1, 1] \<noteq>
       [real_of_int (center_x \<lparr>center_x = 16777217, center_y = 0, aspect_ratio = 1, height = 1\<rparr>),
        real_of_int (center_y \<lparr>center_x = 16777217, center_y = 0, aspect_ratio = 1, height = 1\<rparr>),
        aspect_ratio \<lparr>center_x = 16777217, center_y = 0, aspect_ratio = 1, height = 1\<rparr>,
        real_of_int (height \<lparr>center_x = 16777217, center_y = 0, aspect_ratio = 1, height = 1\<rparr>)]"
  by (simp add: project_def initiate_def mat_vec_def update_mat_def Identity_def dot_def
      upt_conv_Cons Let_def float_of_int_16777217 float_of_int_exact)

text \<open>
  C9, amended.  For a measurement \<open>(cx, cy, a, h)\<close> whose integers \<open>cx\<close>, \<open>cy\<close> and \<open>h\<close>
  are at most \<open>2\<^sup>2\<^sup>4\<close> in absolute value, the range in which every integer is a
  \<open>float\<close>, and whose aspect ratio \<open>a\<close> is a finite \<open>float\<close>, the mean of the projection of
  \<open>initiate(m)\<close> is \<open>(cx, cy, a, h)\<close> itself.  The projected mean of any state is the
  list of its first four components: the products with the rows of the measurement matrix
  add nothing to them.
\<close>

theorem project_initiate_mean:
  assumes "\<bar>center_x boxah\<bar> \<le> 2 ^ 24" and "\<bar>center_y boxah\<bar> \<le> 2 ^ 24"
    and "\<bar>height boxah\<bar> \<le> 2 ^ 24"
  shows "fst (project (fst (initiate boxah)) (snd (initiate boxah))) =
           [real_of_int (center_x boxah), real_of_int (center_y boxah), aspect_ratio boxah,
            real_of_int (height boxah)]
         \<and> fst (project [m0, m1, m2, m3, m4, m5, m6, m7] covariance) = [m0, m1, m2, m3]"
  using assms
  by (simp add: project_def initiate_def mat_vec_def update_mat_def Identity_def dot_def
      upt_conv_Cons Let_def float_of_int_exact)

theorem project_initiate_mean_witness:
  "fst (project (fst (initiate \<lparr>center_x = 5, center_y = 10, aspect_ratio = 1 / 2, height = 20\<rparr>))
                (snd (initiate \<lparr>center_x = 5, center_y = 10, aspect_ratio = 1 / 2, height = 20\<rparr>)))
   = [5, 10, 1 / 2, 20]"
  using project_initiate_mean
    [of "\<lparr>center_x = 5, center_y = 10, aspect_ratio = 1 / 2, height = 20\<rparr>"]
  by simp

subsection \<open>The Mahalanobis distance\<close>

lemma project_skew_cov:
  "project (replicate 8 0) skew_cov =
     ([0, 0, 0, 0], [[1, 1, 0, 0], [1, 2, 0, 0], [0, 0, 1, 0], [0, 0, 0, 1]])"
  by (simp add: project_def skew_cov_def mat_vec_def mat_mul_def mat_add_def update_mat_def
      Identity_def asDiagonal_def dot_def upt_conv_Cons numeral_eq_Suc transpose.simps)

lemma matrixL_skew:
  "matrixL [[1, 1, 0, 0], [1, 2, 0, 0], [0, 0, 1, 0], [0, 0, 0, 1]] =
     [[1, 0, 0, 0], [1, 1, 0, 0], [0, 0, 1, 0], [0, 0, 0, 1]]"
  by (simp add: matrixL_def upt_conv_Cons Let_def)

lemma inverse_lower_skew:
  "inverse_lower [[1, 0, 0, 0], [1, 1, 0, 0], [0, 0, 1, 0], [0, 0, 0, 1]] =
     [[1, 0, 0, 0], [- 1, 1, 0, 0], [0, 0, 1, 0], [0, 0, 0, 1]]"
  by (simp add: inverse_lower_def upt_conv_Cons Let_def)

text \<open>
  A remark on \<open>ma_distance\<close> as a function of an arbitrary covariance.  It multiplies the
  row vector \<open>d\<^sup>T\<close> with the inverse of the Cholesky factor \<open>L\<close>, which gives
  \<open>d\<^sup>T (L\<^sup>T L)\<^sup>-\<^sup>1 d\<close>; the squared Mahalanobis distance is \<open>d\<^sup>T (L L\<^sup>T)\<^sup>-\<^sup>1 d\<close>.
  The two differ when the projected covariance is not diagonal: at the covariance
  \<open>skew_cov\<close> and mean \<open>0\<close> the projected covariance is
  \<open>P = [[1,1,0,0],[1,2,0,0],[0,0,1,0],[0,0,0,1]]\<close>, and for the measurement
  \<open>(1, 0, 0, 0)\<close> the distance \<open>d\<^sup>T P\<^sup>-\<^sup>1 d\<close> is \<open>2\<close> where \<open>ma_distance\<close> returns
  \<open>1\<close>.  No track holds such a covariance: \<open>skew_cov\<close> is not a state of the filter.
\<close>

lemma ma_distance_skew_cov:
  "project (replicate 8 0) skew_cov =
     ([0, 0, 0, 0], [[1, 1, 0, 0], [1, 2, 0, 0], [0, 0, 1, 0], [0, 0, 0, 1]])
   \<and> mat_mul [[1, 1, 0, 0], [1, 2, 0, 0], [0, 0, 1, 0], [0, 0, 0, 1]]
              [[2, - 1, 0, 0], [- 1, 1, 0, 0], [0, 0, 1, 0], [0, 0, 0, 1]] = Identity 4 4
   \<and> mat_mul [[2, - 1, 0, 0], [- 1, 1, 0, 0], [0, 0, 1, 0], [0, 0, 0, 1]]
              [[1, 1, 0, 0], [1, 2, 0, 0], [0, 0, 1, 0], [0, 0, 0, 1]] = Identity 4 4
   \<and> dot [1, 0, 0, 0]
          (mat_vec [[2, - 1, 0, 0], [- 1, 1, 0, 0], [0, 0, 1, 0], [0, 0, 0, 1]] [1, 0, 0, 0]) = 2
   \<and> ma_distance (replicate 8 0) skew_cov
        \<lparr>center_x = 1, center_y = 0, aspect_ratio = 0, height = 0\<rparr> False = Some 1"
  by (simp add: ma_distance_def project_skew_cov matrixL_skew inverse_lower_skew dot_def
      mat_mul_def mat_vec_def Identity_def transpose.simps upt_conv_Cons float_of_int_exact)

lemma skew_cov_not_kf_state: "\<not> kf_state (mean, skew_cov)"
proof
  assume "kf_state (mean, skew_cov)"
  then have "block_cov skew_cov" using kf_state_block by fastforce
  then show False
    by (rule block_covE) (simp add: skew_cov_def)
qed







subsection \<open>The cost of the assignment\<close>






end
